theory Spec2Isabelle
  imports Complex_Main "HOL-Library.Word" "HOL-Library.Monad_Syntax"
begin

unbundle bit_operations_syntax

section \<open>Machine types and memory\<close>

text \<open>
  The firmware runs on a 32-bit little-endian target. \<^verbatim>\<open>uint8_t\<close>, \<^verbatim>\<open>uint16_t\<close> and
  \<^verbatim>\<open>uint32_t\<close> are words of that width, so assignment into a narrower field truncates
  (\<open>ucast\<close>) and arithmetic wraps. A C array is a list; a pointer that the code tests
  against \<^verbatim>\<open>nullptr\<close> is a list option, \<open>None\<close> being the null pointer.

  Every operation that touches memory returns an option: \<open>None\<close> is undefined behaviour
  of the C program (a null pointer dereferenced, an access outside the array).
\<close>

type_synonym byte = "8 word"
type_synonym u16 = "16 word"
type_synonym u32 = "32 word"

definition rd :: "'a list \<Rightarrow> nat \<Rightarrow> 'a option" where
  "rd xs i = (if i < length xs then Some (xs ! i) else None)"

definition wr :: "'a list \<Rightarrow> nat \<Rightarrow> 'a \<Rightarrow> 'a list option" where
  "wr xs i v = (if i < length xs then Some (xs[i := v]) else None)"

text \<open>\<^verbatim>\<open>memset(xs, v, n)\<close> over the first \<open>n\<close> cells of \<open>xs\<close>.\<close>

definition memset :: "'a list \<Rightarrow> 'a \<Rightarrow> nat \<Rightarrow> 'a list option" where
  "memset xs v n = (if n \<le> length xs then Some (replicate n v @ drop n xs) else None)"

text \<open>\<^verbatim>\<open>memcpy(dst + doff, src + soff, n)\<close>, counted in cells.\<close>

definition memcpy :: "'a list \<Rightarrow> nat \<Rightarrow> 'a list \<Rightarrow> nat \<Rightarrow> nat \<Rightarrow> 'a list option" where
  "memcpy dst doff src soff n =
     (if doff + n \<le> length dst \<and> soff + n \<le> length src
      then Some (take doff dst @ take n (drop soff src) @ drop (doff + n) dst)
      else None)"

text \<open>
  The header fields are read through casts \<^verbatim>\<open>*(uint16_t*)&packetData[i]\<close> and
  \<^verbatim>\<open>*(uint32_t*)&packetData[i]\<close>: little-endian loads.
\<close>

definition rd_u16 :: "byte list \<Rightarrow> nat \<Rightarrow> u16" where
  "rd_u16 p i = word_of_nat (unat (p ! i) + 256 * unat (p ! (i + 1)))"

definition rd_u32 :: "byte list \<Rightarrow> nat \<Rightarrow> u32" where
  "rd_u32 p i =
     word_of_nat (unat (p ! i) + 256 * unat (p ! (i + 1)) + 65536 * unat (p ! (i + 2))
                  + 16777216 * unat (p ! (i + 3)))"

section \<open>config.h, config.cpp\<close>

definition DISPLAY_WIDTH :: u16 where "DISPLAY_WIDTH = 480"
definition DISPLAY_HEIGHT :: u16 where "DISPLAY_HEIGHT = 320"
definition MAX_FRAME_SIZE :: u32 where "MAX_FRAME_SIZE = 35000"
definition FRAME_TIMEOUT :: u32 where "FRAME_TIMEOUT = 150"
definition TARGET_FPS :: u32 where "TARGET_FPS = 60"
definition MIN_RENDER_INTERVAL :: u32 where "MIN_RENDER_INTERVAL = 16"
definition FAST_RENDER_INTERVAL :: u32 where "FAST_RENDER_INTERVAL = 8"
definition MAX_PACKETS :: u16 where "MAX_PACKETS = 500"

text \<open>\<^verbatim>\<open>struct CompleteFrameState\<close>. Its \<open>frameId\<close> is 16 bits wide.\<close>

record CompleteFrameState =
  frameId :: u16
  totalPackets :: u16
  receivedPackets :: u16
  totalSize :: u32
  startTime :: u32
  isComplete :: bool
  isValid :: bool
  isRendering :: bool

definition reset :: CompleteFrameState where
  "reset = \<lparr>frameId = 0, totalPackets = 0, receivedPackets = 0, totalSize = 0, startTime = 0,
            isComplete = False, isValid = False, isRendering = False\<rparr>"

section \<open>performance\_monitor.h\<close>

record PerformanceMonitor =
  totalFramesStarted :: u32
  completeFramesReceived :: u32
  completeFramesRendered :: u32
  incompleteFramesDiscarded :: u32
  corruptFramesDiscarded :: u32
  memoryErrors :: u32

definition newPerformanceMonitor :: PerformanceMonitor where
  "newPerformanceMonitor =
     \<lparr>totalFramesStarted = 0, completeFramesReceived = 0, completeFramesRendered = 0,
      incompleteFramesDiscarded = 0, corruptFramesDiscarded = 0, memoryErrors = 0\<rparr>"

definition incrementFramesStarted :: "PerformanceMonitor \<Rightarrow> PerformanceMonitor" where
  "incrementFramesStarted pm = pm\<lparr>totalFramesStarted := totalFramesStarted pm + 1\<rparr>"

definition incrementCompleteFrames :: "PerformanceMonitor \<Rightarrow> PerformanceMonitor" where
  "incrementCompleteFrames pm = pm\<lparr>completeFramesReceived := completeFramesReceived pm + 1\<rparr>"

definition incrementRenderedFrames :: "PerformanceMonitor \<Rightarrow> PerformanceMonitor" where
  "incrementRenderedFrames pm = pm\<lparr>completeFramesRendered := completeFramesRendered pm + 1\<rparr>"

definition incrementIncompleteFrames :: "PerformanceMonitor \<Rightarrow> PerformanceMonitor" where
  "incrementIncompleteFrames pm =
     pm\<lparr>incompleteFramesDiscarded := incompleteFramesDiscarded pm + 1\<rparr>"

definition incrementCorruptFrames :: "PerformanceMonitor \<Rightarrow> PerformanceMonitor" where
  "incrementCorruptFrames pm = pm\<lparr>corruptFramesDiscarded := corruptFramesDiscarded pm + 1\<rparr>"

section \<open>frame\_processor.h\<close>

text \<open>
  The members of \<^verbatim>\<open>class FrameProcessor\<close>. The two mutexes are not state of the model: the
  result of each \<^verbatim>\<open>lockFrame\<close> call is an input of the operation that makes it, as is the
  value \<^verbatim>\<open>millis()\<close> returns. \<open>monitor\<close> is the \<^verbatim>\<open>PerformanceMonitor\<close> singleton the
  processor reaches through \<^verbatim>\<open>PerformanceMonitor::getInstance()\<close>. \<^verbatim>\<open>Serial.printf\<close> output
  is left out.
\<close>

record FrameProcessor =
  frameBuffer :: "byte list option"
  assemblyBuffer :: "byte list option"
  packetReceived :: "bool list option"
  currentFrame :: CompleteFrameState
  monitor :: PerformanceMonitor

text \<open>The constructor, with the monitor as its own constructor leaves it.\<close>

definition newFrameProcessor :: FrameProcessor where
  "newFrameProcessor =
     \<lparr>frameBuffer = None, assemblyBuffer = None, packetReceived = None, currentFrame = reset,
      monitor = newPerformanceMonitor\<rparr>"

definition cleanup :: "FrameProcessor \<Rightarrow> FrameProcessor" where
  "cleanup fp = fp\<lparr>frameBuffer := None, assemblyBuffer := None, packetReceived := None\<rparr>"

text \<open>
  \<^verbatim>\<open>initialize\<close>. Its inputs are the free heap \<^verbatim>\<open>ESP.getFreeHeap()\<close> reports, whether each
  of the three \<^verbatim>\<open>heap_caps_malloc\<close> calls returns a block, and whether both mutexes are
  created.
\<close>

definition initialize ::
  "u32 \<Rightarrow> bool \<Rightarrow> bool \<Rightarrow> bool \<Rightarrow> bool \<Rightarrow> FrameProcessor \<Rightarrow> bool \<times> FrameProcessor" where
  "initialize availableHeap gotFrame gotAssembly gotTracking gotMutexes fp =
     (let frameBufferSize = MAX_FRAME_SIZE;
          assemblyBufferSize = MAX_FRAME_SIZE;
          packetTrackingSize = (ucast MAX_PACKETS :: u32);
          totalNeeded = frameBufferSize + assemblyBufferSize + packetTrackingSize
      in
      if availableHeap < totalNeeded + 20000 then (False, fp)
      else if \<not> gotFrame \<or> \<not> gotAssembly \<or> \<not> gotTracking then (False, cleanup fp)
      else if \<not> gotMutexes then (False, cleanup fp)
      else (True, fp\<lparr>frameBuffer := Some (replicate (unat frameBufferSize) 0),
                      assemblyBuffer := Some (replicate (unat assemblyBufferSize) 0),
                      packetReceived := Some (replicate (unat packetTrackingSize) False)\<rparr>))"

text \<open>
  \<^verbatim>\<open>processPacket(packetData, size)\<close>. \<open>Some pkt\<close> is a non-null \<^verbatim>\<open>packetData\<close> together
  with its \<^verbatim>\<open>size\<close>: \<open>pkt\<close> holds the \<^verbatim>\<open>size\<close> bytes the caller read, and the function
  reads no byte beyond them. \<^verbatim>\<open>size\<close> is an \<^verbatim>\<open>int\<close>, so \<open>length pkt < 2 ^ 31\<close> for every
  call the C program can make. \<open>lockFrame\<close> is the result of \<^verbatim>\<open>lockFrame(5)\<close> and \<open>millis\<close>
  the value of \<^verbatim>\<open>millis()\<close>.

  The reads \<open>payload ! 0\<close> and \<open>payload ! 1\<close> happen only after
  \<open>actualDataSize < 2\<close> was found false, so they are inside the payload.
\<close>

definition processPacket ::
  "bool \<Rightarrow> u32 \<Rightarrow> byte list option \<Rightarrow> FrameProcessor \<Rightarrow> (bool \<times> FrameProcessor) option" where
  "processPacket lockFrame millis packetData fp =
    (case packetData of
       None \<Rightarrow> Some (False, fp)
     | Some pkt \<Rightarrow>
        if length pkt < 12 then Some (False, fp)
        else
          let frame_id = rd_u32 pkt 0;
              total_packets = rd_u16 pkt 4;
              packet_idx = rd_u16 pkt 6;
              packet_size = rd_u32 pkt 8;
              payload = drop 12 pkt;
              actualDataSize = (word_of_nat (length pkt - 12) :: u32);
              cf = currentFrame fp
          in
          if packet_size \<noteq> actualDataSize \<or> total_packets \<le> packet_idx \<or>
             total_packets = 0 \<or> MAX_PACKETS < total_packets
          then Some (False, fp)
          else if \<not> lockFrame then Some (False, fp)
          else if packet_idx = 0 then
            (if actualDataSize < 2 \<or> payload ! 0 \<noteq> 0xFF \<or> payload ! 1 \<noteq> 0xD8
             then Some (False, fp)
             else do {
               tracking \<leftarrow> packetReceived fp;
               cleared \<leftarrow> memset tracking False (unat MAX_PACKETS);
               marked \<leftarrow> wr cleared 0 True;
               let started = fp
                     \<lparr>currentFrame := cf
                        \<lparr>frameId := ucast frame_id, totalPackets := total_packets,
                         receivedPackets := 1, totalSize := packet_size, startTime := millis,
                         isComplete := False, isValid := False, isRendering := False\<rparr>,
                      monitor := incrementFramesStarted (monitor fp),
                      packetReceived := Some marked\<rparr>;
               if packet_size \<le> MAX_FRAME_SIZE then do {
                 assembly \<leftarrow> assemblyBuffer fp;
                 copied \<leftarrow> memcpy assembly 0 payload 0 (unat packet_size);
                 let stored = started\<lparr>assemblyBuffer := Some copied\<rparr>;
                 Some (True,
                   if total_packets = 1
                   then stored\<lparr>currentFrame := (currentFrame stored)\<lparr>isComplete := True\<rparr>\<rparr>
                   else stored)
               } else Some (False, started)
             })
          else if frame_id = ucast (frameId cf) \<and> 0 < receivedPackets cf then do {
            tracking \<leftarrow> packetReceived fp;
            seen \<leftarrow> rd tracking (unat packet_idx);
            if \<not> seen then
              if totalSize cf + packet_size \<le> MAX_FRAME_SIZE then do {
                assembly \<leftarrow> assemblyBuffer fp;
                copied \<leftarrow> memcpy assembly (unat (totalSize cf)) payload 0 (unat packet_size);
                marked \<leftarrow> wr tracking (unat packet_idx) True;
                let cf1 = cf\<lparr>totalSize := totalSize cf + packet_size,
                              receivedPackets := receivedPackets cf + 1\<rparr>;
                Some (True,
                  fp\<lparr>assemblyBuffer := Some copied, packetReceived := Some marked,
                     currentFrame :=
                       (if receivedPackets cf1 = totalPackets cf1
                        then cf1\<lparr>isComplete := True\<rparr> else cf1)\<rparr>)
              } else Some (False, fp)
            else Some (False, fp)
          } else Some (False, fp))"

text \<open>
  The end-marker search of \<^verbatim>\<open>validateCompleteJPEG\<close>:
  \<^verbatim>\<open>for (i = searchStart; i < size - 1; i++) if (buffer[i] == 0xFF && buffer[i + 1] == 0xD9) ...\<close>
  with \<open>k\<close> the number of iterations left. \<^verbatim>\<open>&&\<close> reads \<^verbatim>\<open>buffer[i + 1]\<close> only after
  \<^verbatim>\<open>buffer[i]\<close> was \<^verbatim>\<open>0xFF\<close>.
\<close>

primrec scanEndMarker :: "byte list \<Rightarrow> nat \<Rightarrow> nat \<Rightarrow> bool option" where
  "scanEndMarker buffer i 0 = Some False"
| "scanEndMarker buffer i (Suc k) = do {
     b0 \<leftarrow> rd buffer i;
     if b0 = 0xFF then do {
       b1 \<leftarrow> rd buffer (i + 1);
       if b1 = 0xD9 then Some True else scanEndMarker buffer (Suc i) k
     } else scanEndMarker buffer (Suc i) k
   }"

text \<open>
  \<^verbatim>\<open>validateCompleteJPEG(buffer, size)\<close>, with \<open>sz\<close> for \<^verbatim>\<open>size\<close>. The loop runs for
  \<open>i\<close> from \<open>searchStart\<close> up to \<open>sz - 2\<close>; with \<open>20 \<le> sz\<close> neither \<open>sz - 1\<close> nor
  \<open>i + 1\<close> wraps.
\<close>

definition validateCompleteJPEG :: "byte list option \<Rightarrow> u32 \<Rightarrow> bool option" where
  "validateCompleteJPEG buffer sz =
    (case buffer of
       None \<Rightarrow> Some False
     | Some buf \<Rightarrow>
        if sz < 20 then Some False
        else do {
          b0 \<leftarrow> rd buf 0;
          if b0 \<noteq> 0xFF then Some False
          else do {
            b1 \<leftarrow> rd buf 1;
            if b1 \<noteq> 0xD8 then Some False
            else
              let searchStart = (if 20 < sz then sz - 20 else 0)
              in scanEndMarker buf (unat searchStart) (unat (sz - 1) - unat searchStart)
          }
        })"

text \<open>
  The first loop of \<^verbatim>\<open>assembleCompleteFrame\<close>:
  \<^verbatim>\<open>for (i = 0; i < totalPackets; i++) if (!packetReceived[i]) return false;\<close>
  with \<open>k\<close> the number of iterations left; \<open>Some True\<close> when the loop runs to its end.
\<close>

primrec allPacketsReceived :: "bool list \<Rightarrow> nat \<Rightarrow> nat \<Rightarrow> bool option" where
  "allPacketsReceived tracking i 0 = Some True"
| "allPacketsReceived tracking i (Suc k) = do {
     seen \<leftarrow> rd tracking i;
     if seen then allPacketsReceived tracking (Suc i) k else Some False
   }"

definition assembleCompleteFrame :: "FrameProcessor \<Rightarrow> (bool \<times> FrameProcessor) option" where
  "assembleCompleteFrame fp =
    (case assemblyBuffer fp of
       None \<Rightarrow> Some (False, fp)
     | Some assembly \<Rightarrow>
        (case packetReceived fp of
           None \<Rightarrow> Some (False, fp)
         | Some tracking \<Rightarrow> do {
             let cf = currentFrame fp;
             complete \<leftarrow> allPacketsReceived tracking 0 (unat (totalPackets cf));
             if \<not> complete then Some (False, fp)
             else do {
               valid \<leftarrow> validateCompleteJPEG (Some assembly) (totalSize cf);
               if \<not> valid
               then Some (False, fp\<lparr>monitor := incrementCorruptFrames (monitor fp)\<rparr>)
               else do {
                 frame \<leftarrow> frameBuffer fp;
                 copied \<leftarrow> memcpy frame 0 assembly 0 (unat (totalSize cf));
                 Some (True,
                   fp\<lparr>frameBuffer := Some copied, currentFrame := cf\<lparr>isValid := True\<rparr>,
                      monitor := incrementCompleteFrames (monitor fp)\<rparr>)
               }
             }
           }))"

text \<open>\<^verbatim>\<open>handleFrameTimeout\<close>; \<open>lockFrame\<close> is the result of \<^verbatim>\<open>lockFrame(2)\<close>.\<close>

definition handleFrameTimeout :: "bool \<Rightarrow> u32 \<Rightarrow> FrameProcessor \<Rightarrow> FrameProcessor" where
  "handleFrameTimeout lockFrame millis fp =
    (let cf = currentFrame fp in
     if 0 < receivedPackets cf \<and> FRAME_TIMEOUT < millis - startTime cf then
       if lockFrame
       then fp\<lparr>currentFrame := cf\<lparr>receivedPackets := 0, isComplete := False\<rparr>,
               monitor := incrementIncompleteFrames (monitor fp)\<rparr>
       else fp
     else fp)"

definition resetCurrentFrame :: "FrameProcessor \<Rightarrow> FrameProcessor" where
  "resetCurrentFrame fp =
     fp\<lparr>currentFrame := (currentFrame fp)\<lparr>isComplete := False, isValid := False,
                                           receivedPackets := 0\<rparr>\<rparr>"

section \<open>display\_manager.h\<close>

text \<open>
  The display device is known by the calls it receives: \<open>PushImage x y w h bitmap\<close> is
  \<^verbatim>\<open>tft.pushImage(x, y, w, h, bitmap)\<close>. \<open>callCount\<close> is the \<^verbatim>\<open>static uint16_t\<close> local of
  \<^verbatim>\<open>highSpeedTftOutput\<close>; \<^verbatim>\<open>taskYIELD()\<close> changes no state of the model.
\<close>

datatype tft_call = PushImage int int u16 u16 "u16 list"

record DisplayManager =
  tft :: "tft_call list"
  displayBuffer :: "u16 list option"
  displayBufferEnabled :: bool
  callCount :: u16

text \<open>
  The row loop of \<^verbatim>\<open>highSpeedTftOutput\<close>, with \<open>k\<close> the number of rows left. \<open>x\<close> and \<open>y\<close>
  are the values of the \<^verbatim>\<open>int16_t\<close> parameters, which C promotes to \<^verbatim>\<open>int\<close> wherever the
  function uses them; \<open>w\<close> is the width after clipping. \<^verbatim>\<open>row * w\<close> is a product of two
  \<^verbatim>\<open>int\<close>s: from \<open>2 ^ 31\<close> on it overflows, which is undefined. \<^verbatim>\<open>w << 1\<close> bytes are \<open>w\<close>
  pixels.
\<close>

primrec copyRows ::
  "int \<Rightarrow> int \<Rightarrow> u16 \<Rightarrow> u16 list \<Rightarrow> u16 list \<Rightarrow> nat \<Rightarrow> nat \<Rightarrow> u16 list option" where
  "copyRows x y w bitmap buffer row 0 = Some buffer"
| "copyRows x y w bitmap buffer row (Suc k) =
     (let dstOffset = (word_of_int ((y + int row) * uint DISPLAY_WIDTH + x) :: u32);
          srcOffset = (word_of_nat (row * unat w) :: u32)
      in
      if 2 ^ 31 \<le> row * unat w then None
      else if dstOffset + ucast w \<le> ucast DISPLAY_WIDTH * ucast DISPLAY_HEIGHT then do {
        copied \<leftarrow> memcpy buffer (unat dstOffset) bitmap (unat srcOffset) (unat w);
        copyRows x y w bitmap copied (Suc row) k
      } else copyRows x y w bitmap buffer (Suc row) k)"

definition highSpeedTftOutput ::
  "int \<Rightarrow> int \<Rightarrow> u16 \<Rightarrow> u16 \<Rightarrow> u16 list option \<Rightarrow> DisplayManager \<Rightarrow>
   (bool \<times> DisplayManager) option" where
  "highSpeedTftOutput x y w h bitmap dm =
    (case bitmap of
       None \<Rightarrow> Some (False, dm)
     | Some pixels \<Rightarrow>
        if uint DISPLAY_HEIGHT \<le> y \<or> uint DISPLAY_WIDTH \<le> x then Some (False, dm)
        else
          let w1 = (if uint DISPLAY_WIDTH < x + uint w
                    then word_of_int (uint DISPLAY_WIDTH - x) else w);
              h1 = (if uint DISPLAY_HEIGHT < y + uint h
                    then word_of_int (uint DISPLAY_HEIGHT - y) else h)
          in do {
            drawn \<leftarrow>
              (if 0 < w1 \<and> 0 < h1 then
                 (case displayBuffer dm of
                    Some buffer \<Rightarrow> do {
                      filled \<leftarrow> copyRows x y w1 pixels buffer 0 (unat h1);
                      Some (dm\<lparr>displayBuffer := Some filled\<rparr>)
                    }
                  | None \<Rightarrow> Some (dm\<lparr>tft := tft dm @ [PushImage x y w1 h1 pixels]\<rparr>))
               else Some dm);
            let count = callCount drawn + 1;
            Some (True,
              if count mod 32 = 0 then drawn\<lparr>callCount := 0\<rparr>
              else drawn\<lparr>callCount := count\<rparr>)
          })"

section \<open>task\_manager.h\<close>

text \<open>
  The three local variables of \<^verbatim>\<open>highSpeedDisplayTask\<close>, as they are before its loop.
\<close>

record DisplayTask =
  lastRenderTime :: u32
  frameCount :: u32
  adaptiveInterval :: u32

definition newDisplayTask :: DisplayTask where
  "newDisplayTask =
     \<lparr>lastRenderTime = 0, frameCount = 0, adaptiveInterval = MIN_RENDER_INTERVAL\<rparr>"

text \<open>
  The \<^verbatim>\<open>float\<close> variable \<^verbatim>\<open>avgFPS\<close>. The divisor \<^verbatim>\<open>currentTime - lastRenderTime + 1\<close> is
  computed in \<^verbatim>\<open>uint32_t\<close> and wraps; when it is 0 the division of \<^verbatim>\<open>30000.0f\<close> by it is
  positive infinity, which is above every threshold and below none. Otherwise \<^verbatim>\<open>avgFPS\<close>
  is taken as the exact quotient: the two binary32 roundings (of the divisor, of the
  quotient) move it by less than one part in \<open>2 ^ 22\<close>, which changes neither comparison
  (lemma \<open>binary32_comparisons\<close> below). Both thresholds are whole numbers in binary32:
  \<^verbatim>\<open>TARGET_FPS * 1.1f\<close> is 66.0f (the exact product 66.0000014... rounds to it) and
  \<^verbatim>\<open>TARGET_FPS * 0.9f\<close> is 54.0f (from 53.9999985...).
\<close>

datatype fps = Finite real | Infinite

definition avgFPS :: "u32 \<Rightarrow> u32 \<Rightarrow> fps" where
  "avgFPS currentTime lastRender =
     (let elapsed = currentTime - lastRender + 1
      in if elapsed = 0 then Infinite else Finite (30000 / real (unat elapsed)))"

fun above :: "fps \<Rightarrow> real \<Rightarrow> bool" where
  "above Infinite threshold = True"
| "above (Finite rate) threshold = (threshold < rate)"

fun below :: "fps \<Rightarrow> real \<Rightarrow> bool" where
  "below Infinite threshold = False"
| "below (Finite rate) threshold = (rate < threshold)"

text \<open>
  The adaptive frame rate control at the head of the loop: the value of
  \<^verbatim>\<open>adaptiveInterval\<close> after lines 106 to 113, in a pass that reads \<open>currentTime\<close> from
  \<^verbatim>\<open>millis()\<close>.
\<close>

definition adaptiveFrameRateControl :: "u32 \<Rightarrow> DisplayTask \<Rightarrow> u32" where
  "adaptiveFrameRateControl currentTime task =
     (if frameCount task mod 30 = 0 \<and> 0 < frameCount task then
        let rate = avgFPS currentTime (lastRenderTime task)
        in if above rate (real (unat TARGET_FPS) * 1.1)
           then min (adaptiveInterval task + 1) MIN_RENDER_INTERVAL
           else if below rate (real (unat TARGET_FPS) * 0.9)
           then max (adaptiveInterval task - 1) FAST_RENDER_INTERVAL
           else adaptiveInterval task
      else adaptiveInterval task)"

text \<open>
  One pass of the loop of \<^verbatim>\<open>highSpeedDisplayTask\<close> on its three variables. \<open>currentTime\<close>
  is the value of \<^verbatim>\<open>millis()\<close> at the head of the pass. \<open>frameReady\<close> is the value of
  \<^verbatim>\<open>fp.isFrameComplete() && !fp.isFrameRendering()\<close>, read from the descriptor that the
  ingest task writes meanwhile. \<open>rendered\<close> says that \<^verbatim>\<open>lockDisplay(15)\<close>,
  \<^verbatim>\<open>assembleCompleteFrame()\<close> and \<^verbatim>\<open>renderFrameHighSpeed\<close> all succeed; the pass
  consults them only for a ready frame when the interval has elapsed. The rest of the pass
  (the reset of the descriptor, the unlock, the memory check and the delay of 8 ms)
  touches none of the three variables.
\<close>

definition highSpeedDisplayTask :: "u32 \<Rightarrow> bool \<Rightarrow> bool \<Rightarrow> DisplayTask \<Rightarrow> DisplayTask" where
  "highSpeedDisplayTask currentTime frameReady rendered task =
     (let paced = task\<lparr>adaptiveInterval := adaptiveFrameRateControl currentTime task\<rparr>
      in if frameReady \<and> adaptiveInterval paced \<le> currentTime - lastRenderTime paced \<and>
            rendered
         then paced\<lparr>lastRenderTime := currentTime, frameCount := frameCount paced + 1\<rparr>
         else paced)"

text \<open>Passes of the loop, one after the other, each with its three inputs.\<close>

fun passes :: "(u32 \<times> bool \<times> bool) list \<Rightarrow> DisplayTask \<Rightarrow> DisplayTask" where
  "passes [] task = task"
| "passes ((currentTime, frameReady, rendered) # rest) task =
     passes rest (highSpeedDisplayTask currentTime frameReady rendered task)"

section \<open>Sequences of calls\<close>

text \<open>
  The four operations a caller can make on the processor, each with its inputs, and the
  processor after one call and after a list of them. \<open>None\<close> is undefined behaviour, as
  before.
\<close>

datatype call =
  ProcessPacket bool u32 "byte list option"
| AssembleCompleteFrame
| HandleFrameTimeout bool u32
| ResetCurrentFrame

fun perform :: "call \<Rightarrow> FrameProcessor \<Rightarrow> FrameProcessor option" where
  "perform (ProcessPacket lockFrame millis packetData) fp =
     map_option snd (processPacket lockFrame millis packetData fp)"
| "perform AssembleCompleteFrame fp = map_option snd (assembleCompleteFrame fp)"
| "perform (HandleFrameTimeout lockFrame millis) fp = Some (handleFrameTimeout lockFrame millis fp)"
| "perform ResetCurrentFrame fp = Some (resetCurrentFrame fp)"

fun performAll :: "call list \<Rightarrow> FrameProcessor \<Rightarrow> FrameProcessor option" where
  "performAll [] fp = Some fp"
| "performAll (c # cs) fp = perform c fp \<bind> performAll cs"

text \<open>
  A datagram agrees with the processor when it is shorter than \<open>2 ^ 31\<close> bytes (its size is
  an \<^verbatim>\<open>int\<close>) and, if it has a header, a fragment 0 declares at most \<open>MAX_FRAME_SIZE\<close>
  payload bytes and a continuation of the frame in flight announces as many fragments as
  that frame's fragment 0 did. A continuation of the frame in flight is what the test of
  \<^verbatim>\<open>processPacket\<close> takes for one: a fragment index other than 0, the identifier of the
  descriptor, and \<open>receivedPackets > 0\<close>. With no frame in flight a continuation is under
  no condition, and neither is any other call. A run agrees when each of its calls agrees
  with the processor it meets.
\<close>

definition agreeing :: "call \<Rightarrow> FrameProcessor \<Rightarrow> bool" where
  "agreeing c fp =
     (case c of
        ProcessPacket lockFrame millis (Some pkt) \<Rightarrow>
          length pkt < 2 ^ 31 \<and>
          (12 \<le> length pkt \<longrightarrow>
             (rd_u16 pkt 6 = 0 \<longrightarrow> rd_u32 pkt 8 \<le> MAX_FRAME_SIZE) \<and>
             (rd_u16 pkt 6 \<noteq> 0 \<and> rd_u32 pkt 0 = ucast (frameId (currentFrame fp)) \<and>
              0 < receivedPackets (currentFrame fp) \<longrightarrow>
                rd_u16 pkt 4 = totalPackets (currentFrame fp)))
      | _ \<Rightarrow> True)"

fun agreeingRun :: "call list \<Rightarrow> FrameProcessor \<Rightarrow> bool" where
  "agreeingRun [] fp = True"
| "agreeingRun (c # cs) fp =
     (agreeing c fp \<and> (case perform c fp of None \<Rightarrow> True | Some fp' \<Rightarrow> agreeingRun cs fp'))"

text \<open>The three buffers as \<^verbatim>\<open>initialize()\<close> allocates them.\<close>

definition allocated :: "FrameProcessor \<Rightarrow> bool" where
  "allocated fp =
     (map_option length (frameBuffer fp) = Some (unat MAX_FRAME_SIZE) \<and>
      map_option length (assemblyBuffer fp) = Some (unat MAX_FRAME_SIZE) \<and>
      map_option length (packetReceived fp) = Some (unat MAX_PACKETS))"

text \<open>
  The invariant of the frame descriptor, and the completion law for a descriptor that has
  received a fragment.
\<close>

definition descriptorInvariant :: "CompleteFrameState \<Rightarrow> bool" where
  "descriptorInvariant cf =
     (receivedPackets cf \<le> totalPackets cf \<and> totalPackets cf \<le> MAX_PACKETS \<and>
      totalSize cf \<le> MAX_FRAME_SIZE)"

definition completionLaw :: "CompleteFrameState \<Rightarrow> bool" where
  "completionLaw cf =
     (isComplete cf = (0 < receivedPackets cf \<and> receivedPackets cf = totalPackets cf))"

text \<open>
  While a frame is in flight, \<open>receivedPackets\<close> counts the tracking bits that are set, and
  none is set at \<open>totalPackets\<close> or above.
\<close>

definition tracked :: "FrameProcessor \<Rightarrow> bool" where
  "tracked fp =
     (case packetReceived fp of
        None \<Rightarrow> False
      | Some tracking \<Rightarrow>
          0 < receivedPackets (currentFrame fp) \<longrightarrow>
            unat (receivedPackets (currentFrame fp)) = count_list tracking True \<and>
            True \<notin> set (drop (unat (totalPackets (currentFrame fp))) tracking))"

definition coherent :: "FrameProcessor \<Rightarrow> bool" where
  "coherent fp =
     (allocated fp \<and> descriptorInvariant (currentFrame fp) \<and> completionLaw (currentFrame fp) \<and>
      tracked fp)"

section \<open>Test data\<close>

text \<open>
  The processor after a successful \<^verbatim>\<open>initialize()\<close> on a fresh object, and datagrams as a
  sender lays them out: \<open>frameId\<close> (4 bytes), \<open>totalPackets\<close> (2), \<open>fragmentIndex\<close> (2),
  \<open>payloadSize\<close> (4), little-endian, then the payload.
\<close>

definition readyProcessor :: FrameProcessor where
  "readyProcessor = snd (initialize 200000 True True True True newFrameProcessor)"

text \<open>
  \<open>feed\<close> hands datagrams to \<open>processPacket\<close> one after the other, each with the time
  \<^verbatim>\<open>millis()\<close> shows at that call and with the frame lock acquired.
\<close>

fun feed :: "FrameProcessor \<Rightarrow> (u32 \<times> byte list) list \<Rightarrow> FrameProcessor option" where
  "feed fp [] = Some fp"
| "feed fp ((millis, pkt) # rest) = do {
     (ok, fp') \<leftarrow> processPacket True millis (Some pkt) fp;
     feed fp' rest
   }"

text \<open>Frame 1 in two fragments, and a third datagram that says frame 1 has three.\<close>

definition firstOfTwo :: "byte list" where
  "firstOfTwo = [1, 0, 0, 0,  2, 0,  0, 0,  2, 0, 0, 0,  0xFF, 0xD8]"

definition secondOfTwo :: "byte list" where
  "secondOfTwo = [1, 0, 0, 0,  2, 0,  1, 0,  2, 0, 0, 0,  0xAA, 0xBB]"

definition thirdOfThree :: "byte list" where
  "thirdOfThree = [1, 0, 0, 0,  3, 0,  2, 0,  2, 0, 0, 0,  0xCC, 0xDD]"

text \<open>A datagram of frame 0 with fragment index 1 of 2.\<close>

definition strayContinuation :: "byte list" where
  "strayContinuation = [0, 0, 0, 0,  2, 0,  1, 0,  2, 0, 0, 0,  0xAA, 0xBB]"

text \<open>A datagram of frame 1 with fragment index 5 of 10.\<close>

definition sixthOfTen :: "byte list" where
  "sixthOfTen = [1, 0, 0, 0,  10, 0,  5, 0,  2, 0, 0, 0,  0xEE, 0xEE]"

text \<open>Frame \<open>65536 = 0x00010000\<close> in two fragments.\<close>

definition wideIdFirst :: "byte list" where
  "wideIdFirst = [0, 0, 1, 0,  2, 0,  0, 0,  2, 0, 0, 0,  0xFF, 0xD8]"

definition wideIdSecond :: "byte list" where
  "wideIdSecond = [0, 0, 1, 0,  2, 0,  1, 0,  2, 0, 0, 0,  0xFF, 0xD9]"

text \<open>Frame 7 in one fragment: a 20-byte payload with both markers.\<close>

definition jpeg20 :: "byte list" where
  "jpeg20 = [0xFF, 0xD8] @ replicate 16 0 @ [0xFF, 0xD9]"

definition singleFragment :: "byte list" where
  "singleFragment = [7, 0, 0, 0,  1, 0,  0, 0,  20, 0, 0, 0] @ jpeg20"

text \<open>Frame 9 in one fragment of \<open>35001 = 0x88B9\<close> payload bytes.\<close>

definition oversizedFirst :: "byte list" where
  "oversizedFirst =
     [9, 0, 0, 0,  1, 0,  0, 0,  0xB9, 0x88, 0, 0,  0xFF, 0xD8] @ replicate 34999 0"

text \<open>
  Passes of the display loop, 10 ms apart (the delay of 8 ms and the time of a pass), the
  first at \<open>start + 10\<close>. In \<open>steadyStream\<close> every second pass finds a frame ready and
  renders it, \<open>n\<close> frames in all: a stream of 50 frames per second. In \<open>idlePasses\<close> none of
  the \<open>n\<close> passes finds a frame.
\<close>

primrec steadyStream :: "u32 \<Rightarrow> nat \<Rightarrow> (u32 \<times> bool \<times> bool) list" where
  "steadyStream start 0 = []"
| "steadyStream start (Suc n) =
     (start + 10, False, False) # (start + 20, True, True) # steadyStream (start + 20) n"

primrec idlePasses :: "u32 \<Rightarrow> nat \<Rightarrow> (u32 \<times> bool \<times> bool) list" where
  "idlePasses start 0 = []"
| "idlePasses start (Suc n) = (start + 10, False, False) # idlePasses (start + 10) n"

text \<open>A display with no pixel buffer, and one with a cleared buffer of 480 x 320 pixels.\<close>

definition directDisplay :: DisplayManager where
  "directDisplay = \<lparr>tft = [], displayBuffer = None, displayBufferEnabled = False, callCount = 0\<rparr>"

definition bufferedDisplay :: DisplayManager where
  "bufferedDisplay =
     \<lparr>tft = [], displayBuffer = Some (replicate 153600 0), displayBufferEnabled = True,
      callCount = 0\<rparr>"

text \<open>
  Tiles: 16 x 16 pixels of one colour, and 8 x 2 and 16 x 2 pixels, the pixels of the first
  row numbered from 1000 and those of the second from 2000.
\<close>

definition plainTile :: "u16 list" where
  "plainTile = replicate 256 7"

definition tile8x2 :: "u16 list" where
  "tile8x2 =
     [1001, 1002, 1003, 1004, 1005, 1006, 1007, 1008,
      2001, 2002, 2003, 2004, 2005, 2006, 2007, 2008]"

definition tile16x2 :: "u16 list" where
  "tile16x2 =
     [1000, 1001, 1002, 1003, 1004, 1005, 1006, 1007,
      1008, 1009, 1010, 1011, 1012, 1013, 1014, 1015,
      2000, 2001, 2002, 2003, 2004, 2005, 2006, 2007,
      2008, 2009, 2010, 2011, 2012, 2013, 2014, 2015]"

section \<open>Evaluating the test data\<close>

lemmas config_defs =
  DISPLAY_WIDTH_def DISPLAY_HEIGHT_def MAX_FRAME_SIZE_def FRAME_TIMEOUT_def TARGET_FPS_def
  MIN_RENDER_INTERVAL_def FAST_RENDER_INTERVAL_def MAX_PACKETS_def

lemma readyProcessor_eq:
  "readyProcessor =
     \<lparr>frameBuffer = Some (replicate 35000 0), assemblyBuffer = Some (replicate 35000 0),
      packetReceived = Some (replicate 500 False), currentFrame = reset,
      monitor = newPerformanceMonitor\<rparr>"
  by (simp add: readyProcessor_def initialize_def newFrameProcessor_def cleanup_def config_defs
      Let_def)

lemmas memory_defs = rd_def wr_def memset_def memcpy_def

lemmas word_cmp = word_le_nat_alt word_less_nat_alt

lemmas monitor_defs = newPerformanceMonitor_def incrementFramesStarted_def
  incrementCompleteFrames_def incrementIncompleteFrames_def incrementCorruptFrames_def

lemma header_firstOfTwo:
  "rd_u32 firstOfTwo 0 = 1" "rd_u16 firstOfTwo 4 = 2" "rd_u16 firstOfTwo 6 = 0"
  "rd_u32 firstOfTwo 8 = 2" "length firstOfTwo = 14" "drop 12 firstOfTwo = [0xFF, 0xD8]"
  by (simp_all add: firstOfTwo_def rd_u32_def rd_u16_def)

lemma header_secondOfTwo:
  "rd_u32 secondOfTwo 0 = 1" "rd_u16 secondOfTwo 4 = 2" "rd_u16 secondOfTwo 6 = 1"
  "rd_u32 secondOfTwo 8 = 2" "length secondOfTwo = 14" "drop 12 secondOfTwo = [0xAA, 0xBB]"
  by (simp_all add: secondOfTwo_def rd_u32_def rd_u16_def)

lemma header_strayContinuation:
  "rd_u32 strayContinuation 0 = 0" "rd_u16 strayContinuation 4 = 2"
  "rd_u16 strayContinuation 6 = 1" "rd_u32 strayContinuation 8 = 2"
  "length strayContinuation = 14" "drop 12 strayContinuation = [0xAA, 0xBB]"
  by (simp_all add: strayContinuation_def rd_u32_def rd_u16_def)

lemma header_thirdOfThree:
  "rd_u32 thirdOfThree 0 = 1" "rd_u16 thirdOfThree 4 = 3" "rd_u16 thirdOfThree 6 = 2"
  "rd_u32 thirdOfThree 8 = 2" "length thirdOfThree = 14" "drop 12 thirdOfThree = [0xCC, 0xDD]"
  by (simp_all add: thirdOfThree_def rd_u32_def rd_u16_def)

lemma header_sixthOfTen:
  "rd_u32 sixthOfTen 0 = 1" "rd_u16 sixthOfTen 4 = 10" "rd_u16 sixthOfTen 6 = 5"
  "rd_u32 sixthOfTen 8 = 2" "length sixthOfTen = 14" "drop 12 sixthOfTen = [0xEE, 0xEE]"
  by (simp_all add: sixthOfTen_def rd_u32_def rd_u16_def)

lemma header_singleFragment:
  "rd_u32 singleFragment 0 = 7" "rd_u16 singleFragment 4 = 1" "rd_u16 singleFragment 6 = 0"
  "rd_u32 singleFragment 8 = 20" "length singleFragment = 32"
  "drop 12 singleFragment = jpeg20"
  by (simp_all add: singleFragment_def jpeg20_def rd_u32_def rd_u16_def)

lemma header_oversizedFirst:
  "rd_u32 oversizedFirst 0 = 9" "rd_u16 oversizedFirst 4 = 1" "rd_u16 oversizedFirst 6 = 0"
  "rd_u32 oversizedFirst 8 = 35001" "length oversizedFirst = 35013"
  "oversizedFirst ! 12 = 0xFF" "oversizedFirst ! 13 = 0xD8"
  by (simp_all add: oversizedFirst_def rd_u32_def rd_u16_def)

lemma header_wideIdFirst:
  "rd_u32 wideIdFirst 0 = 65536" "rd_u16 wideIdFirst 4 = 2" "rd_u16 wideIdFirst 6 = 0"
  "rd_u32 wideIdFirst 8 = 2" "length wideIdFirst = 14" "drop 12 wideIdFirst = [0xFF, 0xD8]"
  by (simp_all add: wideIdFirst_def rd_u32_def rd_u16_def)

lemma header_wideIdSecond:
  "rd_u32 wideIdSecond 0 = 65536" "rd_u16 wideIdSecond 4 = 2" "rd_u16 wideIdSecond 6 = 1"
  "rd_u32 wideIdSecond 8 = 2" "length wideIdSecond = 14"
  "drop 12 wideIdSecond = [0xFF, 0xD9]"
  by (simp_all add: wideIdSecond_def rd_u32_def rd_u16_def)

lemma feed_firstOfTwo:
  "feed readyProcessor [(0, firstOfTwo)] =
     Some \<lparr>frameBuffer = Some (replicate 35000 0),
        assemblyBuffer = Some ([0xFF, 0xD8] @ replicate 34998 0),
        packetReceived = Some ((replicate 500 False)[0 := True]),
        currentFrame =
          \<lparr>frameId = 1, totalPackets = 2, receivedPackets = 1, totalSize = 2,
           startTime = 0, isComplete = False, isValid = False, isRendering = False\<rparr>,
        monitor = newPerformanceMonitor\<lparr>totalFramesStarted := 1\<rparr>\<rparr>"
  by (simp add: processPacket_def header_firstOfTwo Let_def readyProcessor_eq config_defs
      memory_defs reset_def monitor_defs)

lemma feed_frame1:
  "feed readyProcessor [(0, firstOfTwo), (0, secondOfTwo)] =
     Some \<lparr>frameBuffer = Some (replicate 35000 0),
        assemblyBuffer = Some ([0xFF, 0xD8, 0xAA, 0xBB] @ replicate 34996 0),
        packetReceived = Some ((replicate 500 False)[0 := True, 1 := True]),
        currentFrame =
          \<lparr>frameId = 1, totalPackets = 2, receivedPackets = 2, totalSize = 4,
           startTime = 0, isComplete = True, isValid = False, isRendering = False\<rparr>,
        monitor = newPerformanceMonitor\<lparr>totalFramesStarted := 1\<rparr>\<rparr>"
  by (simp add: processPacket_def header_firstOfTwo header_secondOfTwo Let_def
      readyProcessor_eq config_defs memory_defs reset_def monitor_defs word_cmp)

lemma process_singleFragment:
  "processPacket True 0 (Some singleFragment) readyProcessor =
     Some (True,
       \<lparr>frameBuffer = Some (replicate 35000 0),
        assemblyBuffer = Some (jpeg20 @ replicate 34980 0),
        packetReceived = Some ((replicate 500 False)[0 := True]),
        currentFrame =
          \<lparr>frameId = 7, totalPackets = 1, receivedPackets = 1, totalSize = 20,
           startTime = 0, isComplete = True, isValid = False, isRendering = False\<rparr>,
        monitor = newPerformanceMonitor\<lparr>totalFramesStarted := 1\<rparr>\<rparr>)"
  by (simp add: processPacket_def header_singleFragment Let_def readyProcessor_eq config_defs
      memory_defs reset_def monitor_defs word_cmp)
    (simp add: jpeg20_def)

lemma feed_singleFragment:
  "feed readyProcessor [(0, singleFragment)] =
     Some \<lparr>frameBuffer = Some (replicate 35000 0),
        assemblyBuffer = Some (jpeg20 @ replicate 34980 0),
        packetReceived = Some ((replicate 500 False)[0 := True]),
        currentFrame =
          \<lparr>frameId = 7, totalPackets = 1, receivedPackets = 1, totalSize = 20,
           startTime = 0, isComplete = True, isValid = False, isRendering = False\<rparr>,
        monitor = newPerformanceMonitor\<lparr>totalFramesStarted := 1\<rparr>\<rparr>"
  by (simp add: process_singleFragment)

section \<open>The JPEG marker check\<close>

lemma scanEndMarker_inbounds:
  "i + k < length buffer \<Longrightarrow>
   scanEndMarker buffer i k =
     Some (\<exists>j. i \<le> j \<and> j < i + k \<and> buffer ! j = 0xFF \<and> buffer ! (j + 1) = 0xD9)"
proof (induction k arbitrary: i)
  case 0
  then show ?case by simp
next
  case (Suc k)
  have step: "scanEndMarker buffer (Suc i) k =
     Some (\<exists>j. Suc i \<le> j \<and> j < Suc i + k \<and> buffer ! j = 0xFF \<and> buffer ! (j + 1) = 0xD9)"
    using Suc.IH [of "Suc i"] Suc.prems by simp
  have unroll: "(\<exists>j. i \<le> j \<and> j < i + Suc k \<and> buffer ! j = 0xFF \<and> buffer ! (j + 1) = 0xD9) \<longleftrightarrow>
     (buffer ! i = 0xFF \<and> buffer ! (i + 1) = 0xD9) \<or>
     (\<exists>j. Suc i \<le> j \<and> j < Suc i + k \<and> buffer ! j = 0xFF \<and> buffer ! (j + 1) = 0xD9)"
    (is "?L \<longleftrightarrow> ?H \<or> ?R")
  proof
    assume ?L
    then obtain j where j: "i \<le> j" "j < i + Suc k" "buffer ! j = 0xFF" "buffer ! (j + 1) = 0xD9"
      by blast
    show "?H \<or> ?R"
    proof (cases "j = i")
      case True
      with j show ?thesis by simp
    next
      case False
      with j have "Suc i \<le> j \<and> j < Suc i + k \<and> buffer ! j = 0xFF \<and> buffer ! (j + 1) = 0xD9"
        by simp
      then show ?thesis by blast
    qed
  next
    assume "?H \<or> ?R"
    then show ?L
    proof
      assume ?H
      then have "i \<le> i \<and> i < i + Suc k \<and> buffer ! i = 0xFF \<and> buffer ! (i + 1) = 0xD9" by simp
      then show ?L by blast
    next
      assume ?R
      then obtain j where "Suc i \<le> j" "j < Suc i + k" "buffer ! j = 0xFF" "buffer ! (j + 1) = 0xD9"
        by blast
      then have "i \<le> j \<and> j < i + Suc k \<and> buffer ! j = 0xFF \<and> buffer ! (j + 1) = 0xD9" by simp
      then show ?L by blast
    qed
  qed
  have inb: "i < length buffer" "i + 1 < length buffer"
    using Suc.prems by simp_all
  have eq: "scanEndMarker buffer i (Suc k) =
     (if buffer ! i = 0xFF \<and> buffer ! (i + 1) = 0xD9 then Some True
      else scanEndMarker buffer (Suc i) k)"
    using inb by (simp add: rd_def del: One_nat_def)
  show ?case
    unfolding eq step unroll by auto
qed

lemma validateCompleteJPEG_inbounds:
  assumes "unat sz \<le> length buf"
  shows "validateCompleteJPEG (Some buf) sz =
     Some (20 \<le> unat sz \<and> buf ! 0 = 0xFF \<and> buf ! 1 = 0xD8 \<and>
           (\<exists>j. unat sz - 20 \<le> j \<and> j + 1 < unat sz \<and> buf ! j = 0xFF \<and> buf ! (j + 1) = 0xD9))"
proof (cases "sz < 20")
  case True
  then have "\<not> 20 \<le> unat sz" by (simp add: word_less_nat_alt)
  with True show ?thesis by (simp add: validateCompleteJPEG_def)
next
  case False
  then have sz: "20 \<le> unat sz" by (simp add: word_less_nat_alt)
  define start where "start = (if 20 < sz then sz - 20 else 0)"
  have start: "unat start = unat sz - 20"
  proof (cases "20 < sz")
    case True
    then have "20 \<le> sz" by simp
    then have "unat (sz - 20) = unat sz - unat (20 :: u32)" by (rule unat_sub)
    with True show ?thesis by (simp add: start_def)
  next
    case False
    then have "unat sz \<le> 20" by (simp add: word_less_nat_alt)
    with False show ?thesis by (simp add: start_def)
  qed
  have "1 \<le> sz" using sz by (simp add: word_le_nat_alt)
  then have last: "unat (sz - 1) = unat sz - 1" by (simp add: unat_sub)
  have bound: "unat start + (unat (sz - 1) - unat start) < length buf"
    using sz assms start last by simp
  have scan: "scanEndMarker buf (unat start) (unat (sz - 1) - unat start) =
     Some (\<exists>j. unat sz - 20 \<le> j \<and> j + 1 < unat sz \<and> buf ! j = 0xFF \<and> buf ! (j + 1) = 0xD9)"
  proof -
    have "\<And>j. (unat start \<le> j \<and> j < unat start + (unat (sz - 1) - unat start)) =
        (unat sz - 20 \<le> j \<and> j + 1 < unat sz)"
      using sz start last by auto
    then have "(\<exists>j. unat start \<le> j \<and> j < unat start + (unat (sz - 1) - unat start) \<and>
          buf ! j = 0xFF \<and> buf ! (j + 1) = 0xD9) =
        (\<exists>j. unat sz - 20 \<le> j \<and> j + 1 < unat sz \<and> buf ! j = 0xFF \<and> buf ! (j + 1) = 0xD9)"
      by (metis (no_types, lifting))
    then show ?thesis
      unfolding scanEndMarker_inbounds [OF bound] by (rule arg_cong)
  qed
  have len: "0 < length buf" "1 < length buf" using sz assms by linarith+
  have head: "validateCompleteJPEG (Some buf) sz =
     (if buf ! 0 = 0xFF \<and> buf ! 1 = 0xD8
      then scanEndMarker buf (unat start) (unat (sz - 1) - unat start) else Some False)"
    using False len by (simp add: validateCompleteJPEG_def rd_def Let_def start_def)
  show ?thesis
    unfolding head scan using sz by auto
qed

text \<open>
  C6. For a buffer that holds \<open>sz\<close> bytes, \<open>validateCompleteJPEG\<close> returns false when
  \<open>sz < 20\<close> or the buffer does not begin with \<open>0xFF 0xD8\<close>; otherwise it returns true
  exactly when \<open>0xFF 0xD9\<close> stands at some position \<open>j, j + 1\<close> inside the last 20 bytes.
\<close>

theorem validateCompleteJPEG_spec:
  assumes "unat sz \<le> length buf"
  shows "validateCompleteJPEG (Some buf) sz =
     Some (20 \<le> unat sz \<and> buf ! 0 = 0xFF \<and> buf ! 1 = 0xD8 \<and>
           (\<exists>j. unat sz - 20 \<le> j \<and> j + 1 < unat sz \<and> buf ! j = 0xFF \<and> buf ! (j + 1) = 0xD9))"
  using assms by (rule validateCompleteJPEG_inbounds)

theorem validateCompleteJPEG_spec_witness:
  "unat (20 :: u32) \<le> length jpeg20 \<and> validateCompleteJPEG (Some jpeg20) 20 = Some True"
proof -
  have len: "unat (20 :: u32) \<le> length jpeg20"
    by (simp add: jpeg20_def)
  have "jpeg20 ! 18 = 0xFF \<and> jpeg20 ! (18 + 1) = 0xD9"
    by (simp add: jpeg20_def nth_append)
  then have found: "\<exists>j. unat (20 :: u32) - 20 \<le> j \<and> j + 1 < unat (20 :: u32) \<and>
      jpeg20 ! j = 0xFF \<and> jpeg20 ! (j + 1) = 0xD9"
    by (intro exI [of _ 18]) simp
  have start: "jpeg20 ! 0 = 0xFF" "jpeg20 ! 1 = 0xD8"
    by (simp_all add: jpeg20_def)
  show ?thesis
    using validateCompleteJPEG_spec [OF len] found start len by simp
qed

section \<open>Redelivered fragments\<close>

text \<open>
  C3, as stated, fails for fragment index 0: after the first fragment of frame 1 its
  tracking bit 0 is set, and the same datagram delivered again is not rejected; it starts
  the frame anew.
\<close>

theorem redelivered_fragment0_counterexample:
  "map_option
     (\<lambda>fp. (packetReceived fp \<bind> (\<lambda>tracking. rd tracking 0),
            map_option fst (processPacket True 0 (Some firstOfTwo) fp),
            map_option (\<lambda>r. totalFramesStarted (monitor (snd r)))
              (processPacket True 0 (Some firstOfTwo) fp)))
     (feed readyProcessor [(0, firstOfTwo)]) =
   Some (Some True, Some True, Some 2)"
  unfolding feed_firstOfTwo
  by (simp add: processPacket_def header_firstOfTwo Let_def config_defs memory_defs
      monitor_defs)

text \<open>
  C3 (amended). A datagram whose fragment index is not 0 and whose tracking bit is
  already set is rejected and changes nothing: \<open>processPacket\<close> returns false and the
  processor (descriptor, tracking set, both buffers, counters) is the one it was given.
\<close>

theorem processPacket_duplicate_continuation:
  assumes "12 \<le> length pkt" and "rd_u16 pkt 6 \<noteq> 0"
    and "packetReceived fp = Some tracking"
    and "rd tracking (unat (rd_u16 pkt 6)) = Some True"
  shows "processPacket lockFrame millis (Some pkt) fp = Some (False, fp)"
  using assms by (simp add: processPacket_def Let_def)

theorem processPacket_duplicate_continuation_witness:
  "map_option (\<lambda>fp. processPacket True 5 (Some secondOfTwo) fp = Some (False, fp))
     (feed readyProcessor [(0, firstOfTwo), (0, secondOfTwo)]) = Some True"
proof -
  let ?tracking = "(replicate 500 False)[0 := True, 1 := True]"
  let ?fp = "\<lparr>frameBuffer = Some (replicate 35000 0),
        assemblyBuffer = Some ([0xFF, 0xD8, 0xAA, 0xBB] @ replicate 34996 0),
        packetReceived = Some ?tracking,
        currentFrame =
          \<lparr>frameId = 1, totalPackets = 2, receivedPackets = 2, totalSize = 4,
           startTime = 0, isComplete = True, isValid = False, isRendering = False\<rparr>,
        monitor = newPerformanceMonitor\<lparr>totalFramesStarted := 1\<rparr>\<rparr>"
  have "processPacket True 5 (Some secondOfTwo) ?fp = Some (False, ?fp)"
    by (rule processPacket_duplicate_continuation [where tracking = ?tracking])
      (simp_all add: header_secondOfTwo rd_def)
  then show ?thesis
    unfolding feed_frame1 by simp
qed

section \<open>Frame timeout\<close>

text \<open>
  C7, as stated, fails for a frame that is already complete: the single fragment of frame
  7 completes it at time 0, and \<open>handleFrameTimeout\<close> at time 151 with the lock acquired
  changes the processor.
\<close>

theorem timeout_complete_frame_counterexample:
  "map_option
     (\<lambda>fp. (isComplete (currentFrame fp), handleFrameTimeout True 151 fp = fp,
            isComplete (currentFrame (handleFrameTimeout True 151 fp)),
            incompleteFramesDiscarded (monitor (handleFrameTimeout True 151 fp))))
     (feed readyProcessor [(0, singleFragment)]) =
   Some (True, False, False, 1)"
proof -
  have "\<lparr>totalFramesStarted = 1 :: u32, completeFramesReceived = 0 :: u32,
          completeFramesRendered = 0 :: u32, incompleteFramesDiscarded = 1 :: u32,
          corruptFramesDiscarded = 0 :: u32, memoryErrors = 0 :: u32\<rparr> \<noteq>
        \<lparr>totalFramesStarted = 1, completeFramesReceived = 0, completeFramesRendered = 0,
          incompleteFramesDiscarded = 0, corruptFramesDiscarded = 0, memoryErrors = 0\<rparr>"
    by simp
  then show ?thesis
    unfolding feed_singleFragment
    by (simp add: handleFrameTimeout_def Let_def config_defs monitor_defs)
qed

text \<open>
  C7 (amended). \<open>handleFrameTimeout\<close> clears \<open>receivedPackets\<close> and \<open>isComplete\<close> and adds one
  to the incomplete-frame counter when, and only when, \<open>receivedPackets > 0\<close>, the time
  since \<open>startTime\<close> (modulo \<open>2 ^ 32\<close>) exceeds \<open>FRAME_TIMEOUT\<close> and the frame lock is
  acquired, whether the frame is complete or not. It changes nothing else then, and
  nothing at all in every other case.
\<close>

theorem handleFrameTimeout_abort:
  "(0 < receivedPackets (currentFrame fp) \<and>
      FRAME_TIMEOUT < millis - startTime (currentFrame fp) \<and> lockFrame \<longrightarrow>
      handleFrameTimeout lockFrame millis fp =
        fp\<lparr>currentFrame := (currentFrame fp)\<lparr>receivedPackets := 0, isComplete := False\<rparr>,
           monitor := (monitor fp)
             \<lparr>incompleteFramesDiscarded := incompleteFramesDiscarded (monitor fp) + 1\<rparr>\<rparr> \<and>
      handleFrameTimeout lockFrame millis fp \<noteq> fp) \<and>
   (\<not> (0 < receivedPackets (currentFrame fp) \<and>
      FRAME_TIMEOUT < millis - startTime (currentFrame fp) \<and> lockFrame) \<longrightarrow>
      handleFrameTimeout lockFrame millis fp = fp)"
proof -
  have changed: "fp\<lparr>currentFrame := c, monitor := (monitor fp)
          \<lparr>incompleteFramesDiscarded := incompleteFramesDiscarded (monitor fp) + 1\<rparr>\<rparr> \<noteq> fp"
    for c
  proof
    assume "fp\<lparr>currentFrame := c, monitor := (monitor fp)
          \<lparr>incompleteFramesDiscarded := incompleteFramesDiscarded (monitor fp) + 1\<rparr>\<rparr> = fp"
    then have "incompleteFramesDiscarded (monitor (fp\<lparr>currentFrame := c, monitor := (monitor fp)
          \<lparr>incompleteFramesDiscarded := incompleteFramesDiscarded (monitor fp) + 1\<rparr>\<rparr>)) =
          incompleteFramesDiscarded (monitor fp)"
      by simp
    then show False by simp
  qed
  show ?thesis
    using changed by (auto simp: handleFrameTimeout_def Let_def incrementIncompleteFrames_def)
qed

theorem handleFrameTimeout_abort_witness:
  "map_option
     (\<lambda>fp. (receivedPackets (currentFrame fp), startTime (currentFrame fp),
            receivedPackets (currentFrame (handleFrameTimeout True 151 fp)),
            incompleteFramesDiscarded (monitor (handleFrameTimeout True 151 fp)),
            handleFrameTimeout True 150 fp = fp,
            handleFrameTimeout False 151 fp = fp))
     (feed readyProcessor [(0, firstOfTwo)]) =
   Some (1, 0, 0, 1, True, True)"
proof -
  let ?fp = "\<lparr>frameBuffer = Some (replicate 35000 0),
        assemblyBuffer = Some ([0xFF, 0xD8] @ replicate 34998 0),
        packetReceived = Some ((replicate 500 False)[0 := True]),
        currentFrame =
          \<lparr>frameId = 1, totalPackets = 2, receivedPackets = 1, totalSize = 2,
           startTime = 0, isComplete = False, isValid = False, isRendering = False\<rparr>,
        monitor = newPerformanceMonitor\<lparr>totalFramesStarted := 1\<rparr>\<rparr>"
  have late: "0 < receivedPackets (currentFrame ?fp) \<and>
      FRAME_TIMEOUT < 151 - startTime (currentFrame ?fp) \<and> True"
    by (simp add: FRAME_TIMEOUT_def)
  have early: "\<not> (0 < receivedPackets (currentFrame ?fp) \<and>
      FRAME_TIMEOUT < 150 - startTime (currentFrame ?fp) \<and> True)"
    by (simp add: FRAME_TIMEOUT_def)
  have busy: "\<not> (0 < receivedPackets (currentFrame ?fp) \<and>
      FRAME_TIMEOUT < 151 - startTime (currentFrame ?fp) \<and> False)"
    by simp
  have a: "handleFrameTimeout True 151 ?fp =
      ?fp\<lparr>currentFrame := (currentFrame ?fp)\<lparr>receivedPackets := 0, isComplete := False\<rparr>,
           monitor := (monitor ?fp)
             \<lparr>incompleteFramesDiscarded := incompleteFramesDiscarded (monitor ?fp) + 1\<rparr>\<rparr>"
    using handleFrameTimeout_abort [of ?fp 151 True] late by blast
  have b: "handleFrameTimeout True 150 ?fp = ?fp"
    using handleFrameTimeout_abort [of ?fp 150 True] early by blast
  have c: "handleFrameTimeout False 151 ?fp = ?fp"
    using handleFrameTimeout_abort [of ?fp 151 False] busy by blast
  show ?thesis
    unfolding feed_firstOfTwo map_option_case option.case a b c
    by (simp add: newPerformanceMonitor_def)
qed

section \<open>An oversized first fragment\<close>

text \<open>
  C10. A fragment-0 datagram that passes the header checks, starts with \<open>0xFF 0xD8\<close> and
  declares a payload larger than \<open>MAX_FRAME_SIZE\<close> is answered with failure once the frame
  lock is held, yet the descriptor is that of the new frame (\<open>receivedPackets = 1\<close>,
  \<open>totalSize\<close> the payload size, \<open>isComplete\<close> false), the tracking set is cleared with
  bit 0 set, and the started-frame counter is one higher. Both buffers are untouched and
  \<open>isComplete\<close> is not set, whatever \<open>totalPackets\<close> says.
\<close>

theorem processPacket_oversized_first_fragment:
  assumes "rd_u32 pkt 8 = word_of_nat (length pkt - 12)"
    and "rd_u16 pkt 6 = 0"
    and "0 < rd_u16 pkt 4" and "rd_u16 pkt 4 \<le> MAX_PACKETS"
    and "pkt ! 12 = 0xFF" and "pkt ! 13 = 0xD8"
    and "MAX_FRAME_SIZE < rd_u32 pkt 8"
    and "lockFrame"
    and "packetReceived fp = Some tracking" and "unat MAX_PACKETS \<le> length tracking"
  shows "processPacket lockFrame millis (Some pkt) fp =
     Some (False,
       fp\<lparr>currentFrame :=
            \<lparr>frameId = ucast (rd_u32 pkt 0), totalPackets = rd_u16 pkt 4, receivedPackets = 1,
             totalSize = rd_u32 pkt 8, startTime = millis, isComplete = False,
             isValid = False, isRendering = False\<rparr>,
          monitor := (monitor fp)\<lparr>totalFramesStarted := totalFramesStarted (monitor fp) + 1\<rparr>,
          packetReceived := Some ((replicate 500 False @ drop 500 tracking)[0 := True])\<rparr>)"
proof -
  have big: "unat MAX_FRAME_SIZE < unat (word_of_nat (length pkt - 12) :: u32)"
    using assms(1,7) by (simp add: word_less_nat_alt)
  have "unat (word_of_nat (length pkt - 12) :: u32) \<le> length pkt - 12"
    by (simp add: unat_of_nat)
  with big have len: "35012 < length pkt"
    by (simp add: MAX_FRAME_SIZE_def)
  then have payload: "drop 12 pkt ! 0 = pkt ! 12" "drop 12 pkt ! 1 = pkt ! 13"
    by simp_all
  have two: "\<not> (word_of_nat (length pkt - 12) :: u32) < 2"
    using big by (simp add: word_less_nat_alt MAX_FRAME_SIZE_def)
  have idx: "\<not> rd_u16 pkt 4 \<le> 0" "rd_u16 pkt 4 \<noteq> 0" "\<not> MAX_PACKETS < rd_u16 pkt 4"
    using assms(3,4) by (auto simp: word_le_nat_alt word_less_nat_alt)
  have over: "\<not> word_of_nat (length pkt - 12) \<le> MAX_FRAME_SIZE"
    using assms(1,7) by (simp add: word_le_nat_alt word_less_nat_alt)
  show ?thesis
    using len assms(2,5,6,8,9,10) idx two over
    by (simp add: processPacket_def Let_def assms(1) payload memset_def wr_def
        incrementFramesStarted_def MAX_PACKETS_def)
qed

theorem processPacket_oversized_first_fragment_witness:
  "map_option
     (\<lambda>(ok, fp). (ok, receivedPackets (currentFrame fp), totalPackets (currentFrame fp),
        totalSize (currentFrame fp), isComplete (currentFrame fp),
        totalFramesStarted (monitor fp), assemblyBuffer fp = assemblyBuffer readyProcessor,
        packetReceived fp))
     (processPacket True 3 (Some oversizedFirst) readyProcessor) =
   Some (False, 1, 1, 35001, False, 1, True, Some ((replicate 500 False)[0 := True]))"
proof -
  have "processPacket True 3 (Some oversizedFirst) readyProcessor =
     Some (False,
       readyProcessor\<lparr>currentFrame :=
            \<lparr>frameId = ucast (rd_u32 oversizedFirst 0), totalPackets = rd_u16 oversizedFirst 4,
             receivedPackets = 1, totalSize = rd_u32 oversizedFirst 8, startTime = 3,
             isComplete = False, isValid = False, isRendering = False\<rparr>,
          monitor := (monitor readyProcessor)
            \<lparr>totalFramesStarted := totalFramesStarted (monitor readyProcessor) + 1\<rparr>,
          packetReceived := Some ((replicate 500 False @ drop 500 (replicate 500 False))[0 := True])\<rparr>)"
    by (rule processPacket_oversized_first_fragment)
      (simp_all add: header_oversizedFirst readyProcessor_eq config_defs word_cmp)
  then show ?thesis
    by (simp add: header_oversizedFirst readyProcessor_eq newPerformanceMonitor_def)
qed

section \<open>The descriptor invariant\<close>

text \<open>
  C1 at its failing inputs. Frame 1 is announced with two fragments and both arrive; a
  third datagram of frame 1 then carries fragment index 2 of 3. Its index is checked
  against its own header only, so it is accepted and \<open>receivedPackets\<close> is 3 while
  \<open>totalPackets\<close> is 2. And a fragment 0 with a payload of 35001 bytes leaves
  \<open>totalSize\<close> at 35001, above \<open>MAX_FRAME_SIZE\<close>.
\<close>

theorem descriptor_invariant_broken:
  "map_option
     (\<lambda>fp. (receivedPackets (currentFrame fp), totalPackets (currentFrame fp),
            descriptorInvariant (currentFrame fp)))
     (feed readyProcessor [(0, firstOfTwo), (0, secondOfTwo), (0, thirdOfThree)]) =
   Some (3, 2, False) \<and>
   map_option
     (\<lambda>fp. (totalSize (currentFrame fp), MAX_FRAME_SIZE, descriptorInvariant (currentFrame fp)))
     (feed readyProcessor [(0, oversizedFirst)]) =
   Some (35001, 35000, False)"
proof -
  have three: "feed readyProcessor [(0, firstOfTwo), (0, secondOfTwo), (0, thirdOfThree)] =
     Some \<lparr>frameBuffer = Some (replicate 35000 0),
        assemblyBuffer = Some ([0xFF, 0xD8, 0xAA, 0xBB, 0xCC, 0xDD] @ replicate 34994 0),
        packetReceived = Some ((replicate 500 False)[0 := True, 1 := True, 2 := True]),
        currentFrame =
          \<lparr>frameId = 1, totalPackets = 2, receivedPackets = 3, totalSize = 6,
           startTime = 0, isComplete = True, isValid = False, isRendering = False\<rparr>,
        monitor = newPerformanceMonitor\<lparr>totalFramesStarted := 1\<rparr>\<rparr>"
    by (simp add: processPacket_def header_firstOfTwo header_secondOfTwo header_thirdOfThree
        Let_def readyProcessor_eq config_defs memory_defs reset_def monitor_defs word_cmp)
  have big: "map_option (\<lambda>fp. currentFrame fp) (feed readyProcessor [(0, oversizedFirst)]) =
      Some \<lparr>frameId = 9, totalPackets = 1, receivedPackets = 1, totalSize = 35001,
        startTime = 0, isComplete = False, isValid = False, isRendering = False\<rparr>"
    by (simp add: processPacket_def header_oversizedFirst Let_def readyProcessor_eq
        config_defs memory_defs reset_def monitor_defs word_cmp)
  then obtain fp where fp: "feed readyProcessor [(0, oversizedFirst)] = Some fp"
    "currentFrame fp = \<lparr>frameId = 9, totalPackets = 1, receivedPackets = 1, totalSize = 35001,
        startTime = 0, isComplete = False, isValid = False, isRendering = False\<rparr>"
    by auto
  show ?thesis
    unfolding three fp(1)
    by (simp add: fp(2) descriptorInvariant_def config_defs word_cmp)
qed

theorem descriptor_invariant_broken_witness:
  "map_option (\<lambda>fp. totalPackets (currentFrame fp) < receivedPackets (currentFrame fp))
     (feed readyProcessor [(0, firstOfTwo), (0, secondOfTwo), (0, thirdOfThree)]) =
   Some True"
proof -
  have "map_option
     (\<lambda>fp. (receivedPackets (currentFrame fp), totalPackets (currentFrame fp),
            descriptorInvariant (currentFrame fp)))
     (feed readyProcessor [(0, firstOfTwo), (0, secondOfTwo), (0, thirdOfThree)]) =
   Some (3, 2, False)"
    using descriptor_invariant_broken by (rule conjunct1)
  then obtain fp where
    fp: "feed readyProcessor [(0, firstOfTwo), (0, secondOfTwo), (0, thirdOfThree)] = Some fp"
      "receivedPackets (currentFrame fp) = 3" "totalPackets (currentFrame fp) = 2"
    by auto
  show ?thesis
    by (simp only: fp(1)) (simp add: fp(2,3))
qed

section \<open>Continuation fragments and the frame identifier\<close>

text \<open>
  A continuation fragment is accepted when the frame identifier of its header is the one
  the descriptor holds, which takes an identifier below \<open>2 ^ 16\<close>: the payload is appended
  at \<open>totalSize\<close>, the tracking bit is set, \<open>receivedPackets\<close> goes up by one, and the frame
  is marked complete when the count reaches \<open>totalPackets\<close>.
\<close>

lemma processPacket_continuation_accepted:
  assumes len: "12 \<le> length pkt" "length pkt < 2 ^ 31"
    and size: "rd_u32 pkt 8 = word_of_nat (length pkt - 12)"
    and idx: "rd_u16 pkt 6 \<noteq> 0" "rd_u16 pkt 6 < rd_u16 pkt 4" "rd_u16 pkt 4 \<le> MAX_PACKETS"
    and lock: "lockFrame"
    and ident: "rd_u32 pkt 0 = ucast (frameId (currentFrame fp))"
    and inflight: "0 < receivedPackets (currentFrame fp)"
    and tracking: "packetReceived fp = Some tracking"
      "rd tracking (unat (rd_u16 pkt 6)) = Some False"
    and room: "unat (totalSize (currentFrame fp)) + (length pkt - 12) \<le> unat MAX_FRAME_SIZE"
    and assembly: "assemblyBuffer fp = Some assembly" "unat MAX_FRAME_SIZE \<le> length assembly"
  shows "processPacket lockFrame millis (Some pkt) fp =
     Some (True,
       fp\<lparr>assemblyBuffer :=
            Some (take (unat (totalSize (currentFrame fp))) assembly @ drop 12 pkt @
                  drop (unat (totalSize (currentFrame fp)) + (length pkt - 12)) assembly),
          packetReceived := Some (tracking[unat (rd_u16 pkt 6) := True]),
          currentFrame := (currentFrame fp)
            \<lparr>totalSize := totalSize (currentFrame fp) + rd_u32 pkt 8,
             receivedPackets := receivedPackets (currentFrame fp) + 1,
             isComplete := isComplete (currentFrame fp) \<or>
               receivedPackets (currentFrame fp) + 1 = totalPackets (currentFrame fp)\<rparr>\<rparr>)"
proof -
  define n where "n = length pkt - 12"
  define ts where "ts = unat (totalSize (currentFrame fp))"
  have n: "unat (word_of_nat n :: u32) = n"
    using len(2) by (simp add: n_def unat_of_nat)
  have sum: "unat (totalSize (currentFrame fp) + word_of_nat n) = ts + n"
    using room n by (simp add: unat_word_ariths ts_def n_def MAX_FRAME_SIZE_def)
  have fits: "totalSize (currentFrame fp) + word_of_nat n \<le> MAX_FRAME_SIZE"
    using room sum by (simp add: word_le_nat_alt ts_def n_def)
  have header: "\<not> rd_u16 pkt 4 \<le> rd_u16 pkt 6" "rd_u16 pkt 4 \<noteq> 0"
    "\<not> MAX_PACKETS < rd_u16 pkt 4"
    using idx by (auto simp: word_le_nat_alt word_less_nat_alt)
  have bit: "unat (rd_u16 pkt 6) < length tracking"
    using tracking(2) by (simp add: rd_def split: if_splits)
  have copy: "memcpy assembly ts (drop 12 pkt) 0 n =
      Some (take ts assembly @ drop 12 pkt @ drop (ts + n) assembly)"
    using room assembly(2) len(1) by (simp add: memcpy_def ts_def n_def)
  show ?thesis
    using len(1) header lock idx(1) ident inflight tracking assembly(1) fits bit
    by (cases "isComplete (currentFrame fp)")
      (simp_all add: processPacket_def Let_def size n_def [symmetric] n ts_def [symmetric]
        copy wr_def)
qed

text \<open>
  C4 at its failing input. The header carries the frame identifier in 32 bits and the
  descriptor keeps 16 of them. Frame 65536 is started by its fragment 0, which leaves
  \<open>frameId = 0\<close>, \<open>receivedPackets = 1\<close> and the tracking bit 1 unset; its fragment 1, with
  the same 32-bit identifier, a matching payload size and room in the buffer, is rejected
  and changes nothing.
\<close>

theorem continuation_wide_frameId_rejected:
  "rd_u32 wideIdFirst 0 = 65536 \<and> rd_u32 wideIdSecond 0 = 65536 \<and>
   map_option
     (\<lambda>fp. (frameId (currentFrame fp), receivedPackets (currentFrame fp),
            packetReceived fp \<bind> (\<lambda>tracking. rd tracking 1),
            processPacket True 1 (Some wideIdSecond) fp = Some (False, fp)))
     (feed readyProcessor [(0, wideIdFirst)]) =
   Some (0, 1, Some False, True)"
proof -
  have started: "feed readyProcessor [(0, wideIdFirst)] =
     Some \<lparr>frameBuffer = Some (replicate 35000 0),
        assemblyBuffer = Some ([0xFF, 0xD8] @ replicate 34998 0),
        packetReceived = Some ((replicate 500 False)[0 := True]),
        currentFrame =
          \<lparr>frameId = 0, totalPackets = 2, receivedPackets = 1, totalSize = 2,
           startTime = 0, isComplete = False, isValid = False, isRendering = False\<rparr>,
        monitor = newPerformanceMonitor\<lparr>totalFramesStarted := 1\<rparr>\<rparr>"
    by (simp add: processPacket_def header_wideIdFirst Let_def readyProcessor_eq config_defs
        memory_defs reset_def monitor_defs)
  show ?thesis
    unfolding started
    by (simp add: processPacket_def header_wideIdFirst header_wideIdSecond Let_def
        config_defs memory_defs word_cmp)
qed

theorem continuation_wide_frameId_rejected_witness:
  "map_option (\<lambda>fp. map_option fst (processPacket True 1 (Some wideIdSecond) fp))
     (feed readyProcessor [(0, wideIdFirst)]) = Some (Some False)"
proof -
  obtain fp where fp: "feed readyProcessor [(0, wideIdFirst)] = Some fp"
      "processPacket True 1 (Some wideIdSecond) fp = Some (False, fp)"
    using continuation_wide_frameId_rejected by auto
  show ?thesis
    by (simp only: fp(1)) (simp add: fp(2))
qed

section \<open>Assembling a frame\<close>

text \<open>
  Every failure of \<open>assembleCompleteFrame\<close> leaves the render buffer as it was. The
  corrupt-frame counter goes up by one when the failure is the marker check, and not at
  all when it is a missing tracking bit or a null buffer.
\<close>

lemma assembleCompleteFrame_failure:
  assumes "assembleCompleteFrame fp = Some (False, fp')"
  shows "frameBuffer fp' = frameBuffer fp \<and>
     (fp' = fp \<or> fp' = fp\<lparr>monitor := incrementCorruptFrames (monitor fp)\<rparr>)"
  using assms
  by (auto simp: assembleCompleteFrame_def Let_def
      split: option.splits if_splits Option.bind_splits)

lemma assembleCompleteFrame_invalid_jpeg:
  assumes "assemblyBuffer fp = Some assembly" and "packetReceived fp = Some tracking"
    and "allPacketsReceived tracking 0 (unat (totalPackets (currentFrame fp))) = Some True"
    and "validateCompleteJPEG (Some assembly) (totalSize (currentFrame fp)) = Some False"
  shows "assembleCompleteFrame fp =
     Some (False, fp\<lparr>monitor := (monitor fp)
       \<lparr>corruptFramesDiscarded := corruptFramesDiscarded (monitor fp) + 1\<rparr>\<rparr>)"
  using assms by (simp add: assembleCompleteFrame_def Let_def incrementCorruptFrames_def)

lemma assembleCompleteFrame_missing_packet:
  assumes "assemblyBuffer fp = Some assembly" and "packetReceived fp = Some tracking"
    and "allPacketsReceived tracking 0 (unat (totalPackets (currentFrame fp))) = Some False"
  shows "assembleCompleteFrame fp = Some (False, fp)"
  using assms by (simp add: assembleCompleteFrame_def Let_def)

lemma allPacketsReceived_inbounds:
  "i + k \<le> length tracking \<Longrightarrow>
   allPacketsReceived tracking i k = Some (\<forall>j. i \<le> j \<and> j < i + k \<longrightarrow> tracking ! j)"
proof (induction k arbitrary: i)
  case 0
  then show ?case by auto
next
  case (Suc k)
  have rest: "allPacketsReceived tracking (Suc i) k =
      Some (\<forall>j. Suc i \<le> j \<and> j < Suc i + k \<longrightarrow> tracking ! j)"
    using Suc.IH [of "Suc i"] Suc.prems by simp
  have here: "rd tracking i = Some (tracking ! i)"
    using Suc.prems by (simp add: rd_def)
  have "(\<forall>j. i \<le> j \<and> j < i + Suc k \<longrightarrow> tracking ! j) =
      (tracking ! i \<and> (\<forall>j. Suc i \<le> j \<and> j < Suc i + k \<longrightarrow> tracking ! j))"
    (is "?all = (_ \<and> ?tail)")
  proof
    assume ?all
    then show "tracking ! i \<and> ?tail" by simp
  next
    assume both: "tracking ! i \<and> ?tail"
    show ?all
    proof (intro allI impI)
      fix j
      assume "i \<le> j \<and> j < i + Suc k"
      then have "j = i \<or> (Suc i \<le> j \<and> j < Suc i + k)" by auto
      with both show "tracking ! j" by blast
    qed
  qed
  then show ?case
    by (simp only: allPacketsReceived.simps here rest) simp
qed

text \<open>
  Whenever a tracking bit below \<open>totalPackets\<close> is unset, \<open>assembleCompleteFrame\<close> returns
  failure and leaves the processor, its counters included, as it was.
\<close>

lemma assembleCompleteFrame_missing_bit:
  assumes "assemblyBuffer fp = Some assembly" and "packetReceived fp = Some tracking"
    and "unat (totalPackets (currentFrame fp)) \<le> length tracking"
    and "j < unat (totalPackets (currentFrame fp))" and "\<not> tracking ! j"
  shows "assembleCompleteFrame fp = Some (False, fp)"
proof -
  have "allPacketsReceived tracking 0 (unat (totalPackets (currentFrame fp))) =
      Some (\<forall>j. 0 \<le> j \<and> j < 0 + unat (totalPackets (currentFrame fp)) \<longrightarrow> tracking ! j)"
    using assms(3) by (intro allPacketsReceived_inbounds) simp
  moreover have "\<not> (\<forall>j. 0 \<le> j \<and> j < 0 + unat (totalPackets (currentFrame fp)) \<longrightarrow> tracking ! j)"
    using assms(4,5) by auto
  ultimately have "allPacketsReceived tracking 0 (unat (totalPackets (currentFrame fp))) =
      Some False"
    by simp
  with assms(1,2) show ?thesis
    by (rule assembleCompleteFrame_missing_packet)
qed

text \<open>
  C5 at its failing input. Frame 1 is announced with two fragments; its fragment 0 and a
  datagram of frame 1 with fragment index 5 of 10 arrive. The descriptor is then complete
  (two fragments received) and tracking bit 1 is unset. \<open>assembleCompleteFrame\<close> finds the
  bit missing and returns failure with the processor as it was: the render buffer is
  untouched, and the corrupt-frame counter is not incremented.
\<close>

theorem assemble_missing_packet_uncounted:
  "map_option
     (\<lambda>fp. (isComplete (currentFrame fp), packetReceived fp \<bind> (\<lambda>tracking. rd tracking 1),
            assembleCompleteFrame fp = Some (False, fp)))
     (feed readyProcessor [(0, firstOfTwo), (0, sixthOfTen)]) =
   Some (True, Some False, True)"
proof -
  have state: "feed readyProcessor [(0, firstOfTwo), (0, sixthOfTen)] =
     Some \<lparr>frameBuffer = Some (replicate 35000 0),
        assemblyBuffer = Some ([0xFF, 0xD8, 0xEE, 0xEE] @ replicate 34996 0),
        packetReceived = Some ((replicate 500 False)[0 := True, 5 := True]),
        currentFrame =
          \<lparr>frameId = 1, totalPackets = 2, receivedPackets = 2, totalSize = 4,
           startTime = 0, isComplete = True, isValid = False, isRendering = False\<rparr>,
        monitor = newPerformanceMonitor\<lparr>totalFramesStarted := 1\<rparr>\<rparr>"
    by (simp add: processPacket_def header_firstOfTwo header_sixthOfTen Let_def
        readyProcessor_eq config_defs memory_defs reset_def monitor_defs word_cmp)
  have loop: "allPacketsReceived ((replicate 500 False)[0 := True, 5 := True]) 0 2 = Some False"
  proof -
    have "allPacketsReceived ((replicate 500 False)[0 := True, 5 := True]) 0 (Suc (Suc 0)) =
        Some False"
      by (simp add: rd_def)
    moreover have "(2 :: nat) = Suc (Suc 0)"
      by simp
    ultimately show ?thesis
      by (simp only:)
  qed
  show ?thesis
    unfolding state by (simp add: assembleCompleteFrame_def Let_def loop rd_def)
qed

theorem assemble_missing_packet_uncounted_witness:
  "map_option
     (\<lambda>fp. map_option (\<lambda>r. corruptFramesDiscarded (monitor (snd r)) =
          corruptFramesDiscarded (monitor fp)) (assembleCompleteFrame fp))
     (feed readyProcessor [(0, firstOfTwo), (0, sixthOfTen)]) =
   Some (Some True)"
proof -
  obtain fp where fp: "feed readyProcessor [(0, firstOfTwo), (0, sixthOfTen)] = Some fp"
      "assembleCompleteFrame fp = Some (False, fp)"
    using assemble_missing_packet_uncounted by auto
  show ?thesis
    by (simp only: fp(1)) (simp add: fp(2))
qed

section \<open>Runs that agree with the frame in flight\<close>

lemma count_below:
  assumes "True \<notin> set (drop n tracking)"
  shows "count_list tracking True \<le> n"
proof -
  have "count_list tracking True =
      count_list (take n tracking) True + count_list (drop n tracking) True"
    by (simp flip: count_list_append)
  also have "\<dots> = count_list (take n tracking) True"
    using assms by simp
  also have "\<dots> \<le> length (take n tracking)"
    by (rule count_le_length)
  also have "\<dots> \<le> n"
    by simp
  finally show ?thesis .
qed

lemma count_set_bit:
  "i < length tracking \<Longrightarrow> \<not> tracking ! i \<Longrightarrow>
   count_list (tracking[i := True]) True = Suc (count_list tracking True)"
proof (induction tracking arbitrary: i)
  case Nil
  then show ?case by simp
next
  case (Cons b tracking)
  then show ?case by (cases i) auto
qed

lemma count_full:
  "count_list xs True = length xs \<Longrightarrow> i < length xs \<Longrightarrow> xs ! i"
proof (induction xs arbitrary: i)
  case Nil
  then show ?case by simp
next
  case (Cons b xs)
  have le: "count_list xs True \<le> length xs"
    by (rule count_le_length)
  show ?case
  proof (cases b)
    case True
    with Cons.prems(1) have "count_list xs True = length xs" by simp
    with Cons.IH Cons.prems(2) True show ?thesis by (cases i) auto
  next
    case False
    with Cons.prems(1) le show ?thesis by simp
  qed
qed

lemma all_received:
  assumes "True \<notin> set (drop n tracking)" and "count_list tracking True = n" and "i < n"
  shows "tracking ! i"
proof -
  have split: "count_list tracking True =
      count_list (take n tracking) True + count_list (drop n tracking) True"
    by (simp flip: count_list_append)
  then have full: "count_list (take n tracking) True = n"
    using assms(1,2) by simp
  moreover have "count_list (take n tracking) True \<le> length (take n tracking)"
    by (rule count_le_length)
  ultimately have len: "length (take n tracking) = n"
    by simp
  then have "take n tracking ! i"
    using count_full [of "take n tracking" i] full assms(3) by simp
  then show ?thesis
    using assms(3) by simp
qed

lemma processPacket_first_fragment_accepted:
  assumes len: "12 \<le> length pkt" "length pkt < 2 ^ 31"
    and size: "rd_u32 pkt 8 = word_of_nat (length pkt - 12)"
    and idx: "rd_u16 pkt 6 = 0" "0 < rd_u16 pkt 4" "rd_u16 pkt 4 \<le> MAX_PACKETS"
    and soi: "\<not> (word_of_nat (length pkt - 12) :: u32) < 2" "drop 12 pkt ! 0 = 0xFF"
      "drop 12 pkt ! 1 = 0xD8"
    and small: "rd_u32 pkt 8 \<le> MAX_FRAME_SIZE"
    and lock: "lockFrame"
    and tracking: "packetReceived fp = Some tracking" "unat MAX_PACKETS \<le> length tracking"
    and assembly: "assemblyBuffer fp = Some assembly" "unat MAX_FRAME_SIZE \<le> length assembly"
  shows "processPacket lockFrame millis (Some pkt) fp =
     Some (True,
       fp\<lparr>currentFrame :=
            \<lparr>frameId = ucast (rd_u32 pkt 0), totalPackets = rd_u16 pkt 4, receivedPackets = 1,
             totalSize = rd_u32 pkt 8, startTime = millis, isComplete = (rd_u16 pkt 4 = 1),
             isValid = False, isRendering = False\<rparr>,
          monitor := incrementFramesStarted (monitor fp),
          packetReceived := Some ((replicate 500 False @ drop 500 tracking)[0 := True]),
          assemblyBuffer := Some (drop 12 pkt @ drop (length pkt - 12) assembly)\<rparr>)"
proof -
  define n where "n = length pkt - 12"
  have n: "unat (word_of_nat n :: u32) = n"
    using len(2) by (simp add: n_def unat_of_nat)
  have fits: "n \<le> unat MAX_FRAME_SIZE"
    using small n by (simp add: size word_le_nat_alt n_def)
  have header: "\<not> rd_u16 pkt 4 \<le> 0" "rd_u16 pkt 4 \<noteq> 0" "\<not> MAX_PACKETS < rd_u16 pkt 4"
    using idx(2,3) by (auto simp: word_le_nat_alt word_less_nat_alt)
  have copy: "memcpy assembly 0 (drop 12 pkt) 0 n = Some (drop 12 pkt @ drop n assembly)"
    using fits assembly(2) len(1) by (simp add: memcpy_def n_def)
  have small': "word_of_nat n \<le> MAX_FRAME_SIZE"
    using small by (simp add: size n_def)
  show ?thesis
    using len(1) header lock idx(1) soi tracking assembly(1) small'
    by (cases "rd_u16 pkt 4 = 1")
      (simp_all add: processPacket_def Let_def size n_def [symmetric] n copy memset_def wr_def
        MAX_PACKETS_def)
qed

lemma coherent_unchanged_descriptor:
  assumes "coherent fp"
    and "currentFrame fp' = currentFrame fp" and "packetReceived fp' = packetReceived fp"
    and "map_option length (frameBuffer fp') = map_option length (frameBuffer fp)"
    and "map_option length (assemblyBuffer fp') = map_option length (assemblyBuffer fp)"
  shows "coherent fp'"
  using assms by (auto simp: coherent_def allocated_def tracked_def split: option.splits)

lemma coherent_first_fragment:
  assumes "coherent fp" and "packetReceived fp = Some tracking"
    and "tp \<noteq> 0" and "tp \<le> MAX_PACKETS"
    and "ts \<le> MAX_FRAME_SIZE" and "length assembly' = unat MAX_FRAME_SIZE"
  shows "coherent (fp
     \<lparr>currentFrame :=
        \<lparr>frameId = ident, totalPackets = tp, receivedPackets = 1,
         totalSize = ts, startTime = millis, isComplete = (tp = 1),
         isValid = False, isRendering = False\<rparr>,
      monitor := m,
      packetReceived := Some ((replicate 500 False @ drop 500 tracking)[0 := True]),
      assemblyBuffer := Some assembly'\<rparr>)"
proof -
  have len: "length tracking = 500"
    using assms(1,2) by (simp add: coherent_def allocated_def MAX_PACKETS_def)
  have frame: "map_option length (frameBuffer fp) = Some (unat MAX_FRAME_SIZE)"
    using assms(1) by (simp add: coherent_def allocated_def)
  have one: "1 \<le> tp"
    using assms(3) by (simp add: word_le_nat_alt unat_gt_0 Suc_le_eq)
  have pos: "0 < unat tp"
    using assms(3) by (simp add: unat_gt_0)
  let ?t = "(replicate 500 False @ drop 500 tracking)[0 := True]"
  have t: "?t = (replicate 500 False)[0 := True]"
    using len by simp
  have "count_list ((replicate 500 False)[0 := True]) True =
      Suc (count_list (replicate 500 False) True)"
    by (rule count_set_bit) simp_all
  then have count: "count_list ?t True = 1"
    by (simp add: t)
  have "drop (unat tp) ((replicate 500 False)[0 := True]) = drop (unat tp) (replicate 500 False)"
    using pos by (rule drop_update_cancel)
  then have above: "True \<notin> set (drop (unat tp) ?t)"
    by (simp add: t)
  have length_t: "length ?t = 500"
    by (simp add: t)
  show ?thesis
    unfolding coherent_def allocated_def descriptorInvariant_def completionLaw_def tracked_def
    using frame assms(4,5,6) one count above length_t
    by (auto simp: MAX_PACKETS_def)
qed

lemma coherent_continuation:
  assumes coh: "coherent fp" and tracking: "packetReceived fp = Some tracking"
    and idx: "idx < totalPackets (currentFrame fp)" "\<not> tracking ! unat idx"
    and inflight: "0 < receivedPackets (currentFrame fp)"
    and room: "unat (totalSize (currentFrame fp)) + unat ps \<le> unat MAX_FRAME_SIZE"
    and assembly: "length assembly' = unat MAX_FRAME_SIZE"
  shows "coherent (fp
     \<lparr>assemblyBuffer := Some assembly',
      packetReceived := Some (tracking[unat idx := True]),
      currentFrame := (currentFrame fp)
        \<lparr>totalSize := totalSize (currentFrame fp) + ps,
         receivedPackets := receivedPackets (currentFrame fp) + 1,
         isComplete := isComplete (currentFrame fp) \<or>
           receivedPackets (currentFrame fp) + 1 = totalPackets (currentFrame fp)\<rparr>\<rparr>)"
proof -
  define cf where "cf = currentFrame fp"
  have alloc: "allocated fp" and inv: "descriptorInvariant cf" and law: "completionLaw cf"
    and tr: "tracked fp"
    using coh by (simp_all add: coherent_def cf_def)
  have len: "length tracking = 500"
    using alloc tracking by (simp add: allocated_def MAX_PACKETS_def)
  have total: "unat (totalPackets cf) \<le> 500"
    using inv by (simp add: descriptorInvariant_def word_le_nat_alt MAX_PACKETS_def)
  have count: "unat (receivedPackets cf) = count_list tracking True"
    and above: "True \<notin> set (drop (unat (totalPackets cf)) tracking)"
    using tr tracking inflight by (simp_all add: tracked_def cf_def)
  have i: "unat idx < unat (totalPackets cf)"
    using idx(1) by (simp add: word_less_nat_alt cf_def)
  then have i_len: "unat idx < length tracking"
    using total len by simp
  have count': "count_list (tracking[unat idx := True]) True = Suc (unat (receivedPackets cf))"
    using count_set_bit [OF i_len idx(2)] count by simp
  have "drop (unat (totalPackets cf)) (tracking[unat idx := True]) =
      drop (unat (totalPackets cf)) tracking"
    using i by (rule drop_update_cancel)
  then have above': "True \<notin> set (drop (unat (totalPackets cf)) (tracking[unat idx := True]))"
    using above by simp
  have bound: "Suc (unat (receivedPackets cf)) \<le> unat (totalPackets cf)"
    using count_below [OF above'] count' by simp
  then have small: "unat (receivedPackets cf) + 1 < 2 ^ 16"
    using total by simp
  have next_count: "unat (receivedPackets cf + 1) = Suc (unat (receivedPackets cf))"
    using small by (simp add: unat_word_ariths)
  have not_complete: "\<not> isComplete cf"
    using law bound by (auto simp: completionLaw_def)
  have next_le: "receivedPackets cf + 1 \<le> totalPackets cf"
    using bound next_count by (simp add: word_le_nat_alt)
  have next_pos: "0 < receivedPackets cf + 1"
    using next_count by (simp add: word_less_nat_alt)
  have "unat (totalSize cf) + unat ps < 2 ^ 32"
    using room by (simp add: MAX_FRAME_SIZE_def cf_def)
  then have "unat (totalSize cf + ps) = unat (totalSize cf) + unat ps"
    by (simp add: unat_word_ariths)
  then have next_size: "totalSize cf + ps \<le> MAX_FRAME_SIZE"
    using room by (simp add: word_le_nat_alt cf_def)
  have length': "length (tracking[unat idx := True]) = 500"
    using len by simp
  show ?thesis
    unfolding coherent_def allocated_def descriptorInvariant_def completionLaw_def tracked_def
      cf_def [symmetric]
    using alloc inv not_complete next_le next_pos next_size count' next_count above' length'
      assembly
    by (auto simp: allocated_def descriptorInvariant_def MAX_PACKETS_def)
qed

lemma processPacket_coherent:
  assumes coh: "coherent fp"
    and agree: "agreeing (ProcessPacket lockFrame millis packetData) fp"
  shows "\<exists>ok fp'. processPacket lockFrame millis packetData fp = Some (ok, fp') \<and> coherent fp'"
proof (cases packetData)
  case None
  then show ?thesis
    using coh by (auto simp: processPacket_def)
next
  case (Some pkt)
  define cf where "cf = currentFrame fp"
  obtain tracking assembly where
    tracking: "packetReceived fp = Some tracking" "length tracking = 500"
    and assembly: "assemblyBuffer fp = Some assembly" "length assembly = 35000"
    using coh by (auto simp: coherent_def allocated_def config_defs)
  have total: "totalPackets cf \<le> MAX_PACKETS" and stored: "totalSize cf \<le> MAX_FRAME_SIZE"
    using coh by (simp_all add: coherent_def descriptorInvariant_def cf_def)
  have short: "length pkt < 2 ^ 31"
    using agree Some by (simp add: agreeing_def)
  define n where "n = length pkt - 12"
  have n: "unat (word_of_nat n :: u32) = n"
    using short by (simp add: n_def unat_of_nat)
  show ?thesis
  proof (cases "length pkt < 12 \<or> rd_u32 pkt 8 \<noteq> word_of_nat n \<or>
      rd_u16 pkt 4 \<le> rd_u16 pkt 6 \<or> rd_u16 pkt 4 = 0 \<or> MAX_PACKETS < rd_u16 pkt 4 \<or>
      \<not> lockFrame")
    case True
    then have "processPacket lockFrame millis (Some pkt) fp = Some (False, fp)"
      by (auto simp: processPacket_def Let_def n_def)
    then show ?thesis
      using coh Some by auto
  next
    case False
    then have len: "12 \<le> length pkt" and size: "rd_u32 pkt 8 = word_of_nat (length pkt - 12)"
      and in_range: "rd_u16 pkt 6 < rd_u16 pkt 4" and some: "rd_u16 pkt 4 \<noteq> 0"
      and few: "rd_u16 pkt 4 \<le> MAX_PACKETS" and lock: "lockFrame"
      by (auto simp: n_def)
    have pos: "0 < rd_u16 pkt 4"
      using some by (simp add: word_less_nat_alt unat_gt_0)
    show ?thesis
    proof (cases "rd_u16 pkt 6 = 0")
      case True
      show ?thesis
      proof (cases "(word_of_nat n :: u32) < 2 \<or> drop 12 pkt ! 0 \<noteq> 0xFF \<or>
          drop 12 pkt ! 1 \<noteq> 0xD8")
        case True
        then have "processPacket lockFrame millis (Some pkt) fp = Some (False, fp)"
          using len \<open>rd_u16 pkt 6 = 0\<close> by (auto simp: processPacket_def Let_def n_def)
        then show ?thesis
          using coh Some by auto
      next
        case False
        then have soi: "\<not> (word_of_nat (length pkt - 12) :: u32) < 2" "drop 12 pkt ! 0 = 0xFF"
          "drop 12 pkt ! 1 = 0xD8"
          by (simp_all add: n_def)
        have small: "rd_u32 pkt 8 \<le> MAX_FRAME_SIZE"
          using agree Some len True by (simp add: agreeing_def)
        then have "n \<le> 35000"
          using n by (simp add: size word_le_nat_alt n_def MAX_FRAME_SIZE_def)
        then have new_length: "length (drop 12 pkt @ drop (length pkt - 12) assembly) =
            unat MAX_FRAME_SIZE"
          using assembly(2) len by (simp add: n_def MAX_FRAME_SIZE_def)
        have "processPacket lockFrame millis (Some pkt) fp =
           Some (True,
             fp\<lparr>currentFrame :=
                  \<lparr>frameId = ucast (rd_u32 pkt 0), totalPackets = rd_u16 pkt 4,
                   receivedPackets = 1, totalSize = rd_u32 pkt 8, startTime = millis,
                   isComplete = (rd_u16 pkt 4 = 1), isValid = False, isRendering = False\<rparr>,
                monitor := incrementFramesStarted (monitor fp),
                packetReceived := Some ((replicate 500 False @ drop 500 tracking)[0 := True]),
                assemblyBuffer := Some (drop 12 pkt @ drop (length pkt - 12) assembly)\<rparr>)"
          using len short size True pos few soi small lock tracking(1) _ assembly(1)
          by (rule processPacket_first_fragment_accepted)
            (simp_all add: tracking(2) assembly(2) config_defs)
        moreover have "coherent (fp
             \<lparr>currentFrame :=
                  \<lparr>frameId = ucast (rd_u32 pkt 0), totalPackets = rd_u16 pkt 4,
                   receivedPackets = 1, totalSize = rd_u32 pkt 8, startTime = millis,
                   isComplete = (rd_u16 pkt 4 = 1), isValid = False, isRendering = False\<rparr>,
                monitor := incrementFramesStarted (monitor fp),
                packetReceived := Some ((replicate 500 False @ drop 500 tracking)[0 := True]),
                assemblyBuffer := Some (drop 12 pkt @ drop (length pkt - 12) assembly)\<rparr>)"
          using coh tracking(1) some few small new_length by (rule coherent_first_fragment)
        ultimately show ?thesis
          using Some by auto
      qed
    next
      case False
      have bit: "unat (rd_u16 pkt 6) < length tracking"
      proof -
        have "unat (rd_u16 pkt 6) < unat (rd_u16 pkt 4)"
          using in_range by (simp add: word_less_nat_alt)
        also have "\<dots> \<le> 500"
          using few by (simp add: word_le_nat_alt MAX_PACKETS_def)
        finally show ?thesis
          by (simp add: tracking(2))
      qed
      then have seen: "rd tracking (unat (rd_u16 pkt 6)) = Some (tracking ! unat (rd_u16 pkt 6))"
        by (simp add: rd_def)
      show ?thesis
      proof (cases "rd_u32 pkt 0 = ucast (frameId cf) \<and> 0 < receivedPackets cf \<and>
          \<not> tracking ! unat (rd_u16 pkt 6) \<and>
          totalSize cf + rd_u32 pkt 8 \<le> MAX_FRAME_SIZE")
        case False
        then have "processPacket lockFrame millis (Some pkt) fp = Some (False, fp)"
          using len size in_range some few lock \<open>rd_u16 pkt 6 \<noteq> 0\<close> tracking(1) seen
          by (auto simp: processPacket_def Let_def cf_def word_le_nat_alt word_less_nat_alt)
        then show ?thesis
          using coh Some by auto
      next
        case True
        then have ident: "rd_u32 pkt 0 = ucast (frameId (currentFrame fp))"
          and inflight: "0 < receivedPackets (currentFrame fp)"
          and unseen: "\<not> tracking ! unat (rd_u16 pkt 6)"
          and guard: "totalSize cf + word_of_nat n \<le> MAX_FRAME_SIZE"
          by (simp_all add: cf_def size n_def)
        have same_total: "rd_u16 pkt 4 = totalPackets (currentFrame fp)"
          using agree Some len False ident inflight by (simp add: agreeing_def)
        have "unat (totalSize cf) \<le> 35000"
          using stored by (simp add: word_le_nat_alt MAX_FRAME_SIZE_def)
        moreover have "n < 2 ^ 31"
          using short by (simp add: n_def)
        ultimately have "unat (totalSize cf) + n < 2 ^ 32"
          by simp
        then have "unat (totalSize cf + word_of_nat n) = unat (totalSize cf) + n"
          using n by (simp add: unat_word_ariths)
        then have room: "unat (totalSize (currentFrame fp)) + (length pkt - 12) \<le>
            unat MAX_FRAME_SIZE"
          using guard by (simp add: word_le_nat_alt cf_def n_def)
        let ?assembly = "take (unat (totalSize (currentFrame fp))) assembly @ drop 12 pkt @
            drop (unat (totalSize (currentFrame fp)) + (length pkt - 12)) assembly"
        have new_length: "length ?assembly = unat MAX_FRAME_SIZE"
          using room assembly(2) len by (simp add: MAX_FRAME_SIZE_def)
        have "processPacket lockFrame millis (Some pkt) fp =
           Some (True,
             fp\<lparr>assemblyBuffer := Some ?assembly,
                packetReceived := Some (tracking[unat (rd_u16 pkt 6) := True]),
                currentFrame := (currentFrame fp)
                  \<lparr>totalSize := totalSize (currentFrame fp) + rd_u32 pkt 8,
                   receivedPackets := receivedPackets (currentFrame fp) + 1,
                   isComplete := isComplete (currentFrame fp) \<or>
                     receivedPackets (currentFrame fp) + 1 = totalPackets (currentFrame fp)\<rparr>\<rparr>)"
          using len short size False in_range few lock ident inflight tracking(1) _ room
            assembly(1)
          by (rule processPacket_continuation_accepted)
            (simp_all add: seen unseen assembly(2) MAX_FRAME_SIZE_def)
        moreover have "coherent (fp\<lparr>assemblyBuffer := Some ?assembly,
                packetReceived := Some (tracking[unat (rd_u16 pkt 6) := True]),
                currentFrame := (currentFrame fp)
                  \<lparr>totalSize := totalSize (currentFrame fp) + rd_u32 pkt 8,
                   receivedPackets := receivedPackets (currentFrame fp) + 1,
                   isComplete := isComplete (currentFrame fp) \<or>
                     receivedPackets (currentFrame fp) + 1 = totalPackets (currentFrame fp)\<rparr>\<rparr>)"
        proof (rule coherent_continuation [OF coh tracking(1)])
          show "rd_u16 pkt 6 < totalPackets (currentFrame fp)"
            using in_range same_total by simp
          show "\<not> tracking ! unat (rd_u16 pkt 6)"
            by (rule unseen)
          show "0 < receivedPackets (currentFrame fp)"
            by (rule inflight)
          show "unat (totalSize (currentFrame fp)) + unat (rd_u32 pkt 8) \<le> unat MAX_FRAME_SIZE"
            using room n by (simp add: size n_def)
          show "length ?assembly = unat MAX_FRAME_SIZE"
            by (rule new_length)
        qed
        ultimately show ?thesis
          using Some by auto
      qed
    qed
  qed
qed

lemma assembleCompleteFrame_coherent:
  assumes coh: "coherent fp"
  shows "\<exists>ok fp'. assembleCompleteFrame fp = Some (ok, fp') \<and> coherent fp'"
proof -
  define cf where "cf = currentFrame fp"
  obtain frame assembly tracking where
    frame: "frameBuffer fp = Some frame" "length frame = 35000"
    and assembly: "assemblyBuffer fp = Some assembly" "length assembly = 35000"
    and tracking: "packetReceived fp = Some tracking" "length tracking = 500"
    using coh by (auto simp: coherent_def allocated_def config_defs)
  have total: "unat (totalPackets cf) \<le> 500" and stored: "unat (totalSize cf) \<le> 35000"
    using coh
    by (simp_all add: coherent_def descriptorInvariant_def cf_def word_le_nat_alt config_defs)
  obtain complete where
    loop: "allPacketsReceived tracking 0 (unat (totalPackets cf)) = Some complete"
    using allPacketsReceived_inbounds [of 0 "unat (totalPackets cf)" tracking] total tracking(2)
    by simp
  obtain valid where check: "validateCompleteJPEG (Some assembly) (totalSize cf) = Some valid"
    using validateCompleteJPEG_inbounds [of "totalSize cf" assembly] stored assembly(2)
    by simp
  have copy: "memcpy frame 0 assembly 0 (unat (totalSize cf)) =
      Some (take (unat (totalSize cf)) assembly @ drop (unat (totalSize cf)) frame)"
    using stored frame(2) assembly(2) by (simp add: memcpy_def)
  have copied: "length (take (unat (totalSize cf)) assembly @ drop (unat (totalSize cf)) frame) =
      35000"
    using stored frame(2) assembly(2) by simp
  consider (missing) "\<not> complete" | (invalid) "complete" "\<not> valid" | (good) "complete" "valid"
    by blast
  then show ?thesis
  proof cases
    case missing
    then have "assembleCompleteFrame fp = Some (False, fp)"
      using assembly(1) tracking(1) loop
      by (simp add: assembleCompleteFrame_def Let_def cf_def)
    then show ?thesis
      using coh by auto
  next
    case invalid
    then have "assembleCompleteFrame fp =
        Some (False, fp\<lparr>monitor := incrementCorruptFrames (monitor fp)\<rparr>)"
      using assembly(1) tracking(1) loop check
      by (simp add: assembleCompleteFrame_def Let_def cf_def)
    moreover have "coherent (fp\<lparr>monitor := incrementCorruptFrames (monitor fp)\<rparr>)"
      using coh by (rule coherent_unchanged_descriptor) simp_all
    ultimately show ?thesis
      by auto
  next
    case good
    let ?fp' = "fp\<lparr>frameBuffer :=
          Some (take (unat (totalSize cf)) assembly @ drop (unat (totalSize cf)) frame),
        currentFrame := cf\<lparr>isValid := True\<rparr>,
        monitor := incrementCompleteFrames (monitor fp)\<rparr>"
    have "assembleCompleteFrame fp = Some (True, ?fp')"
      using good assembly(1) tracking(1) frame(1) loop check copy
      by (simp add: assembleCompleteFrame_def Let_def cf_def)
    moreover have "coherent ?fp'"
      using coh copied frame assembly tracking
      by (auto simp: coherent_def allocated_def descriptorInvariant_def completionLaw_def
          tracked_def cf_def config_defs)
    ultimately show ?thesis
      by auto
  qed
qed

lemma handleFrameTimeout_coherent:
  assumes "coherent fp"
  shows "coherent (handleFrameTimeout lockFrame millis fp)"
  using assms
  by (auto simp: handleFrameTimeout_def Let_def coherent_def allocated_def
      descriptorInvariant_def completionLaw_def tracked_def split: option.splits)

lemma resetCurrentFrame_coherent:
  assumes "coherent fp"
  shows "coherent (resetCurrentFrame fp)"
  using assms
  by (auto simp: resetCurrentFrame_def coherent_def allocated_def descriptorInvariant_def
      completionLaw_def tracked_def split: option.splits)

lemma perform_coherent:
  assumes "coherent fp" and "agreeing c fp"
  shows "\<exists>fp'. perform c fp = Some fp' \<and> coherent fp'"
proof (cases c)
  case (ProcessPacket lockFrame millis packetData)
  then show ?thesis
    using processPacket_coherent [of fp lockFrame millis packetData] assms by auto
next
  case AssembleCompleteFrame
  then show ?thesis
    using assembleCompleteFrame_coherent [OF assms(1)] by auto
next
  case (HandleFrameTimeout lockFrame millis)
  then show ?thesis
    using handleFrameTimeout_coherent [OF assms(1)] by simp
next
  case ResetCurrentFrame
  then show ?thesis
    using resetCurrentFrame_coherent [OF assms(1)] by simp
qed

lemma performAll_coherent:
  "coherent fp \<Longrightarrow> agreeingRun calls fp \<Longrightarrow>
   \<exists>fp'. performAll calls fp = Some fp' \<and> coherent fp'"
proof (induction calls arbitrary: fp)
  case Nil
  then show ?case by simp
next
  case (Cons c calls)
  from Cons.prems have "agreeing c fp"
    by simp
  with Cons.prems(1) obtain fp1 where step: "perform c fp = Some fp1" and coh: "coherent fp1"
    using perform_coherent by blast
  from Cons.prems(2) step have "agreeingRun calls fp1"
    by simp
  with coh obtain fp' where "performAll calls fp1 = Some fp'" and "coherent fp'"
    using Cons.IH by blast
  with step show ?case
    by simp
qed

lemma coherent_readyProcessor: "coherent readyProcessor"
  by (simp add: readyProcessor_eq coherent_def allocated_def descriptorInvariant_def
      completionLaw_def tracked_def reset_def config_defs)

text \<open>
  From the initialised processor, every sequence of calls whose datagrams agree with the
  frame in flight runs without undefined behaviour and ends in a state where
  \<open>receivedPackets \<le> totalPackets \<le> MAX_PACKETS\<close>, \<open>totalSize \<le> MAX_FRAME_SIZE\<close>, and
  \<open>isComplete\<close> holds exactly when a fragment has been received and
  \<open>receivedPackets = totalPackets\<close>.
\<close>

lemma agreeing_run_invariant:
  assumes "agreeingRun calls readyProcessor"
  shows "\<exists>fp. performAll calls readyProcessor = Some fp \<and>
     descriptorInvariant (currentFrame fp) \<and> completionLaw (currentFrame fp)"
  using performAll_coherent [OF coherent_readyProcessor assms] by (auto simp: coherent_def)

section \<open>The completion law\<close>

lemma processPacket_sets_isComplete:
  assumes "processPacket lockFrame millis packetData fp = Some (True, fp')"
    and "\<not> isComplete (currentFrame fp)"
  shows "isComplete (currentFrame fp') =
     (receivedPackets (currentFrame fp') = totalPackets (currentFrame fp'))"
  using assms
  by (auto simp: processPacket_def Let_def split: option.splits if_splits Option.bind_splits)

lemma processPacket_failure_isComplete:
  assumes "processPacket lockFrame millis packetData fp = Some (False, fp')"
    and "isComplete (currentFrame fp')"
  shows "isComplete (currentFrame fp)"
  using assms
  by (auto simp: processPacket_def Let_def split: option.splits if_splits Option.bind_splits)

lemma processPacket_isValid:
  assumes "processPacket lockFrame millis packetData fp = Some (ok, fp')"
    and "isValid (currentFrame fp')"
  shows "isValid (currentFrame fp)"
  using assms
  by (auto simp: processPacket_def Let_def split: option.splits if_splits Option.bind_splits)

lemma assembleCompleteFrame_isComplete:
  assumes "assembleCompleteFrame fp = Some (ok, fp')"
  shows "isComplete (currentFrame fp') = isComplete (currentFrame fp)"
  using assms
  by (auto simp: assembleCompleteFrame_def Let_def
      split: option.splits if_splits Option.bind_splits)

lemma assembleCompleteFrame_isValid:
  assumes "assembleCompleteFrame fp = Some (ok, fp')"
    and "isValid (currentFrame fp')" and "\<not> isValid (currentFrame fp)"
  shows "ok \<and> validateCompleteJPEG (assemblyBuffer fp) (totalSize (currentFrame fp)) = Some True"
  using assms
  by (auto simp: assembleCompleteFrame_def Let_def
      split: option.splits if_splits Option.bind_splits)

text \<open>
  C2, as stated, fails in the state \<^verbatim>\<open>initialize()\<close> leaves: \<open>receivedPackets\<close> and
  \<open>totalPackets\<close> are both 0 and \<open>isComplete\<close> is false. It fails the other way round after
  the three datagrams of C1: \<open>isComplete\<close> holds with 3 fragments received of 2.
\<close>

theorem completion_iff_counterexample:
  "\<not> isComplete (currentFrame readyProcessor) \<and>
   receivedPackets (currentFrame readyProcessor) = totalPackets (currentFrame readyProcessor) \<and>
   map_option
     (\<lambda>fp. (isComplete (currentFrame fp), receivedPackets (currentFrame fp),
            totalPackets (currentFrame fp)))
     (feed readyProcessor [(0, firstOfTwo), (0, secondOfTwo), (0, thirdOfThree)]) =
   Some (True, 3, 2)"
proof -
  have "feed readyProcessor [(0, firstOfTwo), (0, secondOfTwo), (0, thirdOfThree)] =
     Some \<lparr>frameBuffer = Some (replicate 35000 0),
        assemblyBuffer = Some ([0xFF, 0xD8, 0xAA, 0xBB, 0xCC, 0xDD] @ replicate 34994 0),
        packetReceived = Some ((replicate 500 False)[0 := True, 1 := True, 2 := True]),
        currentFrame =
          \<lparr>frameId = 1, totalPackets = 2, receivedPackets = 3, totalSize = 6,
           startTime = 0, isComplete = True, isValid = False, isRendering = False\<rparr>,
        monitor = newPerformanceMonitor\<lparr>totalFramesStarted := 1\<rparr>\<rparr>"
    by (simp add: processPacket_def header_firstOfTwo header_secondOfTwo header_thirdOfThree
        Let_def readyProcessor_eq config_defs memory_defs reset_def monitor_defs word_cmp)
  then show ?thesis
    by (simp only:) (simp add: readyProcessor_eq reset_def)
qed

text \<open>
  C2 (amended). \<open>isComplete\<close> is set by \<open>processPacket\<close> alone: a call that succeeds on a
  descriptor not yet complete leaves \<open>isComplete\<close> true exactly when it leaves
  \<open>receivedPackets = totalPackets\<close>; a call that fails never sets it, and neither do
  \<open>assembleCompleteFrame\<close>, \<open>handleFrameTimeout\<close> and \<open>resetCurrentFrame\<close>. \<open>isValid\<close> turns
  from false to true only in a successful \<open>assembleCompleteFrame\<close>, and then
  \<open>validateCompleteJPEG\<close> has returned true on the assembly buffer and \<open>totalSize\<close>. After
  every run of calls from the initialised processor whose datagrams agree with the frame in
  flight, \<open>isComplete\<close> holds exactly when a fragment has been received and
  \<open>receivedPackets = totalPackets\<close>.
\<close>

theorem completion_law:
  "(processPacket lockFrame millis packetData fp = Some (True, fp') \<and>
      \<not> isComplete (currentFrame fp) \<longrightarrow>
      isComplete (currentFrame fp') =
        (receivedPackets (currentFrame fp') = totalPackets (currentFrame fp'))) \<and>
   (processPacket lockFrame millis packetData fp = Some (False, fp') \<and>
      isComplete (currentFrame fp') \<longrightarrow> isComplete (currentFrame fp)) \<and>
   (assembleCompleteFrame fp = Some (ok, fp') \<longrightarrow>
      isComplete (currentFrame fp') = isComplete (currentFrame fp)) \<and>
   (isComplete (currentFrame (handleFrameTimeout lockFrame millis fp)) \<longrightarrow>
      isComplete (currentFrame fp)) \<and>
   \<not> isComplete (currentFrame (resetCurrentFrame fp)) \<and>
   (processPacket lockFrame millis packetData fp = Some (ok, fp') \<and>
      isValid (currentFrame fp') \<longrightarrow> isValid (currentFrame fp)) \<and>
   isValid (currentFrame (handleFrameTimeout lockFrame millis fp)) = isValid (currentFrame fp) \<and>
   \<not> isValid (currentFrame (resetCurrentFrame fp)) \<and>
   (assembleCompleteFrame fp = Some (ok, fp') \<and> isValid (currentFrame fp') \<and>
      \<not> isValid (currentFrame fp) \<longrightarrow>
      ok \<and> validateCompleteJPEG (assemblyBuffer fp) (totalSize (currentFrame fp)) = Some True) \<and>
   (agreeingRun calls readyProcessor \<longrightarrow>
      (\<exists>last. performAll calls readyProcessor = Some last \<and>
         isComplete (currentFrame last) =
           (0 < receivedPackets (currentFrame last) \<and>
            receivedPackets (currentFrame last) = totalPackets (currentFrame last))))"
proof -
  have run: "agreeingRun calls readyProcessor \<longrightarrow>
      (\<exists>last. performAll calls readyProcessor = Some last \<and>
         isComplete (currentFrame last) =
           (0 < receivedPackets (currentFrame last) \<and>
            receivedPackets (currentFrame last) = totalPackets (currentFrame last)))"
    using agreeing_run_invariant [of calls] by (auto simp: completionLaw_def)
  have timeout: "isComplete (currentFrame (handleFrameTimeout lockFrame millis fp)) \<longrightarrow>
      isComplete (currentFrame fp)"
    "isValid (currentFrame (handleFrameTimeout lockFrame millis fp)) = isValid (currentFrame fp)"
    by (simp_all add: handleFrameTimeout_def Let_def)
  have reset: "\<not> isComplete (currentFrame (resetCurrentFrame fp))"
    "\<not> isValid (currentFrame (resetCurrentFrame fp))"
    by (simp_all add: resetCurrentFrame_def)
  show ?thesis
    using processPacket_sets_isComplete [of lockFrame millis packetData fp fp']
      processPacket_failure_isComplete [of lockFrame millis packetData fp fp']
      processPacket_isValid [of lockFrame millis packetData fp ok fp']
      assembleCompleteFrame_isComplete [of fp ok fp']
      assembleCompleteFrame_isValid [of fp ok fp'] timeout reset run
    by blast
qed

theorem completion_law_witness:
  "map_option (\<lambda>last. (isComplete (currentFrame last), receivedPackets (currentFrame last)))
     (performAll
        [ProcessPacket True 0 (Some strayContinuation), ProcessPacket True 0 (Some firstOfTwo),
         HandleFrameTimeout True 151, ProcessPacket True 160 (Some thirdOfThree),
         ProcessPacket True 200 (Some singleFragment)] readyProcessor) =
   Some (True, 1) \<and>
   map_option
     (\<lambda>fp. (isComplete (currentFrame fp),
            receivedPackets (currentFrame fp) = totalPackets (currentFrame fp),
            map_option (\<lambda>(ok, fp'). (ok, isValid (currentFrame fp')))
              (assembleCompleteFrame fp),
            validateCompleteJPEG (assemblyBuffer fp) (totalSize (currentFrame fp))))
     (feed readyProcessor [(0, singleFragment)]) =
   Some (True, True, Some (True, True), Some True)"
proof -
  let ?fp = "\<lparr>frameBuffer = Some (replicate 35000 0),
        assemblyBuffer = Some (jpeg20 @ replicate 34980 0),
        packetReceived = Some ((replicate 500 False)[0 := True]),
        currentFrame =
          \<lparr>frameId = 7, totalPackets = 1, receivedPackets = 1, totalSize = 20,
           startTime = 0, isComplete = True, isValid = False, isRendering = False\<rparr>,
        monitor = newPerformanceMonitor\<lparr>totalFramesStarted := 1\<rparr>\<rparr>"
  let ?fp' = "?fp\<lparr>frameBuffer := Some (jpeg20 @ replicate 34980 0),
        currentFrame := (currentFrame ?fp)\<lparr>isValid := True\<rparr>,
        monitor := incrementCompleteFrames (monitor ?fp)\<rparr>"
  have step: "processPacket True 0 (Some singleFragment) readyProcessor = Some (True, ?fp)"
    by (rule process_singleFragment)
  have fresh: "\<not> isComplete (currentFrame readyProcessor)"
    by (simp add: readyProcessor_eq reset_def)
  have law: "isComplete (currentFrame ?fp) =
      (receivedPackets (currentFrame ?fp) = totalPackets (currentFrame ?fp))"
    using completion_law [of True 0 "Some singleFragment" readyProcessor ?fp] step fresh
    by blast
  have found: "\<exists>j. unat (20 :: u32) - 20 \<le> j \<and> j + 1 < unat (20 :: u32) \<and>
      (jpeg20 @ replicate 34980 0) ! j = 0xFF \<and> (jpeg20 @ replicate 34980 0) ! (j + 1) = 0xD9"
    by (intro exI [of _ 18]) (simp add: jpeg20_def nth_append)
  have valid: "validateCompleteJPEG (Some (jpeg20 @ replicate 34980 0)) 20 = Some True"
    using validateCompleteJPEG_inbounds [of 20 "jpeg20 @ replicate 34980 0"] found
    by (simp add: jpeg20_def)
  have assemble: "assembleCompleteFrame ?fp = Some (True, ?fp')"
    by (simp add: assembleCompleteFrame_def Let_def rd_def valid memcpy_def)
      (simp add: jpeg20_def)
  have "isComplete (currentFrame ?fp)"
    by simp
  with law have "receivedPackets (currentFrame ?fp) = totalPackets (currentFrame ?fp)"
    by blast
  then have single: "map_option
     (\<lambda>fp. (isComplete (currentFrame fp),
            receivedPackets (currentFrame fp) = totalPackets (currentFrame fp),
            map_option (\<lambda>(ok, fp'). (ok, isValid (currentFrame fp')))
              (assembleCompleteFrame fp),
            validateCompleteJPEG (assemblyBuffer fp) (totalSize (currentFrame fp))))
     (feed readyProcessor [(0, singleFragment)]) =
     Some (True, True, Some (True, True), Some True)"
    unfolding feed_singleFragment map_option_case option.case assemble
    using valid by simp
  let ?calls = "[ProcessPacket True 0 (Some strayContinuation),
      ProcessPacket True 0 (Some firstOfTwo), HandleFrameTimeout True 151,
      ProcessPacket True 160 (Some thirdOfThree), ProcessPacket True 200 (Some singleFragment)]"
  have final: "performAll ?calls readyProcessor =
      Some \<lparr>frameBuffer = Some (replicate 35000 0),
        assemblyBuffer = Some (jpeg20 @ replicate 34980 0),
        packetReceived = Some ((replicate 500 False)[0 := True]),
        currentFrame =
          \<lparr>frameId = 7, totalPackets = 1, receivedPackets = 1, totalSize = 20,
           startTime = 200, isComplete = True, isValid = False, isRendering = False\<rparr>,
        monitor = newPerformanceMonitor
          \<lparr>totalFramesStarted := 2, incompleteFramesDiscarded := 1\<rparr>\<rparr>"
    by (simp add: processPacket_def header_firstOfTwo header_singleFragment
        header_strayContinuation header_thirdOfThree Let_def
        readyProcessor_eq config_defs memory_defs reset_def monitor_defs word_cmp
        handleFrameTimeout_def)
      (simp add: jpeg20_def)
  have "agreeingRun ?calls readyProcessor"
    by (simp add: agreeing_def processPacket_def header_firstOfTwo header_singleFragment
        header_strayContinuation header_thirdOfThree
        Let_def readyProcessor_eq config_defs memory_defs reset_def monitor_defs word_cmp
        handleFrameTimeout_def)
  then obtain last where last: "performAll ?calls readyProcessor = Some last"
    "isComplete (currentFrame last) =
       (0 < receivedPackets (currentFrame last) \<and>
        receivedPackets (currentFrame last) = totalPackets (currentFrame last))"
    using completion_law [of True 0 None readyProcessor readyProcessor True ?calls] by blast
  have "map_option (\<lambda>last. (isComplete (currentFrame last), receivedPackets (currentFrame last)))
     (performAll ?calls readyProcessor) = Some (True, 1)"
    using last final by simp
  with single show ?thesis
    by (rule conjI [rotated])
qed

section \<open>Adaptive pacing\<close>

lemma unat_min_word: "unat (min (a :: u32) b) = min (unat a) (unat b)"
  by (simp add: min_def word_le_nat_alt)

lemma unat_max_word: "unat (max (a :: u32) b) = max (unat a) (unat b)"
  by (simp add: max_def word_le_nat_alt)

text \<open>
  The quotient \<open>30000 / n\<close> is above 66 up to \<open>n = 454\<close> and below 54 from \<open>n = 556\<close> on.
\<close>

lemma fps_thresholds:
  assumes "0 < n"
  shows "(66 < 30000 / real n) = (n \<le> 454)" and "(30000 / real n < 54) = (556 \<le> n)"
proof -
  have "(66 < 30000 / real n) = (66 * real n < 30000)"
    using assms by (simp add: pos_less_divide_eq)
  also have "\<dots> = (real (66 * n) < real 30000)"
    by simp
  also have "\<dots> = (66 * n < 30000)"
    by (simp only: of_nat_less_iff)
  also have "\<dots> = (n \<le> 454)"
    by presburger
  finally show "(66 < 30000 / real n) = (n \<le> 454)" .
  have "(30000 / real n < 54) = (30000 < 54 * real n)"
    using assms by (simp add: pos_divide_less_eq)
  also have "\<dots> = (real 30000 < real (54 * n))"
    by simp
  also have "\<dots> = (30000 < 54 * n)"
    by (simp only: of_nat_less_iff)
  also have "\<dots> = (556 \<le> n)"
    by presburger
  finally show "(30000 / real n < 54) = (556 \<le> n)" .
qed

text \<open>
  A value within one part in \<open>2 ^ 22\<close> of the quotient compares with 66 and with 54 as the
  quotient does: the binary32 roundings change no branch of the rate control.
\<close>

lemma binary32_comparisons:
  fixes rate :: real
  assumes "0 < n" and "\<bar>rate - 30000 / real n\<bar> \<le> 30000 / real n / 2 ^ 22"
  shows "(66 < rate) = (n \<le> 454)" and "(rate < 54) = (556 \<le> n)"
proof -
  define q where "q = 30000 / real n"
  have near: "q - q / 4194304 \<le> rate" "rate \<le> q + q / 4194304"
    using assms(2) by (simp_all add: q_def abs_le_iff)
  have scaled: "q * real n = 30000"
    using assms(1) by (simp add: q_def)
  have "0 < q"
    using assms(1) by (simp add: q_def)
  have up: "30000 \<le> q * 454" if "n \<le> 454"
  proof -
    have "real n \<le> 454"
      using that by simp
    then have "q * real n \<le> q * 454"
      using \<open>0 < q\<close> by (simp only: mult_le_cancel_left_pos)
    then show ?thesis
      by (simp only: scaled)
  qed
  have down: "q * 455 \<le> 30000" if "\<not> n \<le> 454"
  proof -
    have "455 \<le> real n"
      using that by simp
    then have "q * 455 \<le> q * real n"
      using \<open>0 < q\<close> by (simp only: mult_le_cancel_left_pos)
    then show ?thesis
      by (simp only: scaled)
  qed
  have low: "q * 556 \<le> 30000" if "556 \<le> n"
  proof -
    have "556 \<le> real n"
      using that by simp
    then have "q * 556 \<le> q * real n"
      using \<open>0 < q\<close> by (simp only: mult_le_cancel_left_pos)
    then show ?thesis
      by (simp only: scaled)
  qed
  have high: "30000 \<le> q * 555" if "\<not> 556 \<le> n"
  proof -
    have "real n \<le> 555"
      using that by simp
    then have "q * real n \<le> q * 555"
      using \<open>0 < q\<close> by (simp only: mult_le_cancel_left_pos)
    then show ?thesis
      by (simp only: scaled)
  qed
  show "(66 < rate) = (n \<le> 454)"
    using near up down by (cases "n \<le> 454") simp_all
  show "(rate < 54) = (556 \<le> n)"
    using near low high by (cases "556 \<le> n") simp_all
qed

text \<open>
  The rate control in terms of the divisor \<^verbatim>\<open>currentTime - lastRenderTime + 1\<close>: when
  \<open>frameCount\<close> is a positive multiple of 30, the interval goes up by 1 ms, capped at
  \<open>MIN_RENDER_INTERVAL\<close>, if the divisor is at most 454 (0, after a wrap, included); down
  by 1 ms, capped at \<open>FAST_RENDER_INTERVAL\<close>, if the divisor is 556 or more; and stays
  otherwise, as it does at every other \<open>frameCount\<close>.
\<close>

lemma adaptiveFrameRateControl_branches:
  "adaptiveFrameRateControl currentTime task =
     (if frameCount task mod 30 = 0 \<and> 0 < frameCount task then
        if currentTime - lastRenderTime task + 1 \<le> 454
        then min (adaptiveInterval task + 1) MIN_RENDER_INTERVAL
        else if 556 \<le> currentTime - lastRenderTime task + 1
        then max (adaptiveInterval task - 1) FAST_RENDER_INTERVAL
        else adaptiveInterval task
      else adaptiveInterval task)"
proof (cases "currentTime - lastRenderTime task + 1 = 0")
  case True
  then show ?thesis
    by (simp add: adaptiveFrameRateControl_def avgFPS_def)
next
  case False
  define n where "n = unat (currentTime - lastRenderTime task + 1)"
  have "0 < n"
    using False by (simp add: n_def unat_gt_0)
  then have "(66 < 30000 / real n) = (n \<le> 454)" and "(30000 / real n < 54) = (556 \<le> n)"
    by (rule fps_thresholds)+
  then show ?thesis
    using False
    by (simp add: adaptiveFrameRateControl_def avgFPS_def Let_def config_defs n_def
        word_le_nat_alt)
qed

text \<open>From an interval inside its bounds the rate control moves by at most one step, to an
  interval inside the bounds.\<close>

lemma adaptiveFrameRateControl_range:
  assumes "FAST_RENDER_INTERVAL \<le> adaptiveInterval task"
    and "adaptiveInterval task \<le> MIN_RENDER_INTERVAL"
  shows "FAST_RENDER_INTERVAL \<le> adaptiveFrameRateControl currentTime task"
    and "adaptiveFrameRateControl currentTime task \<le> MIN_RENDER_INTERVAL"
    and "unat (adaptiveFrameRateControl currentTime task) \<le> unat (adaptiveInterval task) + 1"
    and "unat (adaptiveInterval task) - 1 \<le> unat (adaptiveFrameRateControl currentTime task)"
proof -
  have lo: "8 \<le> unat (adaptiveInterval task)" and hi: "unat (adaptiveInterval task) \<le> 16"
    using assms by (simp_all add: word_le_nat_alt config_defs)
  have up: "unat (adaptiveInterval task + 1) = unat (adaptiveInterval task) + 1"
    using hi by (simp add: unat_word_ariths)
  have "1 \<le> adaptiveInterval task"
    using lo by (simp add: word_le_nat_alt)
  then have down: "unat (adaptiveInterval task - 1) = unat (adaptiveInterval task) - 1"
    by (simp add: unat_sub)
  show "FAST_RENDER_INTERVAL \<le> adaptiveFrameRateControl currentTime task"
    and "adaptiveFrameRateControl currentTime task \<le> MIN_RENDER_INTERVAL"
    and "unat (adaptiveFrameRateControl currentTime task) \<le> unat (adaptiveInterval task) + 1"
    and "unat (adaptiveInterval task) - 1 \<le> unat (adaptiveFrameRateControl currentTime task)"
    using lo hi
    by (auto simp: adaptiveFrameRateControl_branches word_le_nat_alt unat_min_word
        unat_max_word up down config_defs)
qed

text \<open>
  A pass that renders no frame leaves \<open>frameCount\<close> and \<open>lastRenderTime\<close> as they are: at
  a positive multiple of 30 the next pass runs the rate control again, on a divisor that
  has grown by the time between the passes.
\<close>

lemma idle_pass:
  assumes "\<not> (frameReady \<and> rendered)"
  shows "highSpeedDisplayTask currentTime frameReady rendered task =
     task\<lparr>adaptiveInterval := adaptiveFrameRateControl currentTime task\<rparr>"
  using assms by (auto simp: highSpeedDisplayTask_def Let_def)

lemma passes_append: "passes (first @ rest) task = passes rest (passes first task)"
  by (induction first arbitrary: task) auto

lemma steadyStream_numeral:
  "steadyStream start (numeral k) =
     (start + 10, False, False) # (start + 20, True, True) #
     steadyStream (start + 20) (pred_numeral k)"
  by (simp add: numeral_eq_Suc)

lemma idlePasses_numeral:
  "idlePasses start (numeral k) =
     (start + 10, False, False) # idlePasses (start + 10) (pred_numeral k)"
  by (simp add: numeral_eq_Suc)

lemmas pass_defs = highSpeedDisplayTask_def adaptiveFrameRateControl_def avgFPS_def Let_def

lemma first_thirty_frames:
  "passes (steadyStream 0 30) newDisplayTask =
     \<lparr>lastRenderTime = 600, frameCount = 30, adaptiveInterval = 16\<rparr>"
  by (simp add: steadyStream_numeral pass_defs newDisplayTask_def config_defs word_cmp)

lemma stall_after_thirty_frames:
  "passes (idlePasses 600 55)
     \<lparr>lastRenderTime = 600, frameCount = 30, adaptiveInterval = 16\<rparr> =
     \<lparr>lastRenderTime = 600, frameCount = 30, adaptiveInterval = 16\<rparr>"
  "passes (idlePasses 600 56)
     \<lparr>lastRenderTime = 600, frameCount = 30, adaptiveInterval = 16\<rparr> =
     \<lparr>lastRenderTime = 600, frameCount = 30, adaptiveInterval = 15\<rparr>"
  "passes (idlePasses 600 57)
     \<lparr>lastRenderTime = 600, frameCount = 30, adaptiveInterval = 16\<rparr> =
     \<lparr>lastRenderTime = 600, frameCount = 30, adaptiveInterval = 14\<rparr>"
  "passes (idlePasses 600 60)
     \<lparr>lastRenderTime = 600, frameCount = 30, adaptiveInterval = 16\<rparr> =
     \<lparr>lastRenderTime = 600, frameCount = 30, adaptiveInterval = 11\<rparr>"
  by (simp_all add: idlePasses_numeral pass_defs config_defs word_cmp)

lemma next_thirty_frames:
  "passes (steadyStream 1200 30)
     \<lparr>lastRenderTime = 600, frameCount = 30, adaptiveInterval = 11\<rparr> =
     \<lparr>lastRenderTime = 1800, frameCount = 60, adaptiveInterval = 9\<rparr>"
  by (simp add: steadyStream_numeral pass_defs config_defs word_cmp)

text \<open>
  C8 fails in the loop of \<^verbatim>\<open>highSpeedDisplayTask\<close>. The passes are 10 ms apart. Thirty
  frames rendered 20 ms apart are 50 frames per second, more than 10% below
  \<open>TARGET_FPS = 60\<close>; the pass at 610 ms, at the sampling point of frame 30, divides 30000
  by the 11 ms since the last render, finds 2727 frames per second and takes the branch
  that raises the interval (it stays at its cap, 16 ms, and is not lowered to 15). When
  no frame arrives, the interval stays at 16 ms up to the pass at 1150 ms; the passes at
  1160 ms and 1170 ms both run the rate control, still at the sampling point of frame 30,
  and lower the interval twice, to 15 ms and to 14 ms, and so does every later pass, down
  to 11 ms at 1200 ms. The stream then goes on at 50 frames per second: the two passes
  that lead to frame 31 lower the interval to 9 ms, and at the sampling point of frame 60
  the pass at 1810 ms raises it to 10 ms and the pass at 1820 ms, which renders frame 61,
  to 11 ms.
\<close>

theorem pacing_sampling_point_diverges:
  "passes (steadyStream 0 30) newDisplayTask =
     \<lparr>lastRenderTime = 600, frameCount = 30, adaptiveInterval = 16\<rparr> \<and>
   avgFPS 610 600 = Finite (30000 / 11) \<and>
   passes (steadyStream 0 30 @ idlePasses 600 1) newDisplayTask =
     \<lparr>lastRenderTime = 600, frameCount = 30, adaptiveInterval = 16\<rparr> \<and>
   passes (steadyStream 0 30 @ idlePasses 600 55) newDisplayTask =
     \<lparr>lastRenderTime = 600, frameCount = 30, adaptiveInterval = 16\<rparr> \<and>
   passes (steadyStream 0 30 @ idlePasses 600 56) newDisplayTask =
     \<lparr>lastRenderTime = 600, frameCount = 30, adaptiveInterval = 15\<rparr> \<and>
   passes (steadyStream 0 30 @ idlePasses 600 57) newDisplayTask =
     \<lparr>lastRenderTime = 600, frameCount = 30, adaptiveInterval = 14\<rparr> \<and>
   passes (steadyStream 0 30 @ idlePasses 600 60) newDisplayTask =
     \<lparr>lastRenderTime = 600, frameCount = 30, adaptiveInterval = 11\<rparr> \<and>
   passes (steadyStream 0 30 @ idlePasses 600 60 @ steadyStream 1200 30) newDisplayTask =
     \<lparr>lastRenderTime = 1800, frameCount = 60, adaptiveInterval = 9\<rparr> \<and>
   passes (steadyStream 0 30 @ idlePasses 600 60 @ steadyStream 1200 30 @ idlePasses 1800 1)
     newDisplayTask =
     \<lparr>lastRenderTime = 1800, frameCount = 60, adaptiveInterval = 10\<rparr> \<and>
   passes (steadyStream 0 30 @ idlePasses 600 60 @ steadyStream 1200 30 @ steadyStream 1800 1)
     newDisplayTask =
     \<lparr>lastRenderTime = 1820, frameCount = 61, adaptiveInterval = 11\<rparr>"
  unfolding passes_append first_thirty_frames stall_after_thirty_frames next_thirty_frames
  by (simp add: pass_defs config_defs word_cmp)

section \<open>The tile callback\<close>

lemma memcpy_result:
  assumes "memcpy dst doff src soff n = Some out"
  shows "length out = length dst"
    and "p < length dst \<Longrightarrow>
      out ! p = (if doff \<le> p \<and> p < doff + n then src ! (soff + (p - doff)) else dst ! p)"
proof -
  have ok: "doff + n \<le> length dst" "soff + n \<le> length src"
    and out: "out = take doff dst @ take n (drop soff src) @ drop (doff + n) dst"
    using assms by (auto simp: memcpy_def split: if_splits)
  show "length out = length dst"
    using ok by (simp add: out)
  show "out ! p = (if doff \<le> p \<and> p < doff + n then src ! (soff + (p - doff)) else dst ! p)"
    if "p < length dst"
    using ok that by (auto simp: out nth_append)
qed

lemma unat_ucast_u16: "unat (ucast (w :: u16) :: u32) = unat w"
proof -
  have "unat w < 2 ^ 16"
    using unsigned_less [of w] by simp
  then have "unat w < 2 ^ 32"
    by simp
  then show ?thesis
    by (simp add: unsigned_ucast_eq take_bit_nat_eq_self)
qed

lemma unat_u32_of_nat: "n < 4294967296 \<Longrightarrow> unat (word_of_nat n :: u32) = n"
  by (simp add: unat_of_nat)

text \<open>A pixel position inside one row segment of the buffer.\<close>

lemma row_segment:
  fixes r c q x n :: nat
  assumes "c < 480" and "x + n \<le> 480"
  shows "(q * 480 + x \<le> r * 480 + c \<and> r * 480 + c < q * 480 + x + n) =
     (r = q \<and> x \<le> c \<and> c < x + n)"
  using assms by (cases r q rule: linorder_cases) auto

lemma copyRows_step:
  assumes "x + unat w \<le> 480" and "y + row < 320" and "length buffer = 153600"
    and "(row + 1) * unat w \<le> length bitmap"
  shows "copyRows (int x) (int y) w bitmap buffer row (Suc k) =
     memcpy buffer ((y + row) * 480 + x) bitmap (row * unat w) (unat w) \<bind>
       (\<lambda>copied. copyRows (int x) (int y) w bitmap copied (Suc row) k)"
proof -
  have w: "unat w \<le> 480"
    using assms(1) by simp
  have "row * unat w \<le> 320 * 480"
    using assms(2) w by (intro mult_mono) simp_all
  then have src: "row * unat w < 2 ^ 31" "row * unat w < 4294967296"
    by simp_all
  have sval: "unat (word_of_nat (row * unat w) :: u32) = row * unat w"
    using src(2) by (rule unat_u32_of_nat)
  define d where "d = (y + row) * 480 + x"
  have "(y + row) * 480 \<le> 319 * 480"
    using assms(2) by simp
  then have dst: "d + unat w \<le> 153600"
    using assms(1) by (simp add: d_def)
  have "(int y + int row) * uint DISPLAY_WIDTH + int x = int d"
    by (simp add: DISPLAY_WIDTH_def d_def)
  then have off: "(word_of_int ((int y + int row) * uint DISPLAY_WIDTH + int x) :: u32) =
      word_of_nat d"
    by (simp only: word_of_int_nat of_nat_0_le_iff nat_int)
  have dval: "unat (word_of_nat d :: u32) = d"
    using dst by (intro unat_u32_of_nat) simp
  have "unat (word_of_nat d + ucast w :: u32) = d + unat w"
    using dst by (simp add: unat_word_ariths dval unat_ucast_u16)
  then have guard: "(word_of_nat d + ucast w :: u32) \<le> ucast DISPLAY_WIDTH * ucast DISPLAY_HEIGHT"
    using dst by (simp add: word_le_nat_alt config_defs)
  have "copyRows (int x) (int y) w bitmap buffer row (Suc k) =
     memcpy buffer d bitmap (row * unat w) (unat w) \<bind>
       (\<lambda>copied. copyRows (int x) (int y) w bitmap copied (Suc row) k)"
    unfolding copyRows.simps Let_def off dval sval
    using src guard by simp
  then show ?thesis
    by (simp only: d_def)
qed

lemma copyRows_result:
  assumes "x + unat w \<le> 480" and "y + row + k \<le> 320" and "length buffer = 153600"
    and "(row + k) * unat w \<le> length bitmap"
  shows "\<exists>filled. copyRows (int x) (int y) w bitmap buffer row k = Some filled \<and>
     length filled = 153600 \<and>
     (\<forall>r c. r < 320 \<longrightarrow> c < 480 \<longrightarrow>
        filled ! (r * 480 + c) =
          (if y + row \<le> r \<and> r < y + row + k \<and> x \<le> c \<and> c < x + unat w
           then bitmap ! ((r - y) * unat w + (c - x)) else buffer ! (r * 480 + c)))"
  using assms
proof (induction k arbitrary: buffer row)
  case 0
  then show ?case by auto
next
  case (Suc k)
  have rows: "y + row < 320" "y + Suc row + k \<le> 320"
    using Suc.prems(2) by simp_all
  have src: "(row + 1) * unat w \<le> length bitmap" "(Suc row + k) * unat w \<le> length bitmap"
  proof -
    have "(row + 1) * unat w \<le> (row + Suc k) * unat w"
      by (intro mult_le_mono1) simp
    also have "\<dots> \<le> length bitmap"
      by (rule Suc.prems(4))
    finally show "(row + 1) * unat w \<le> length bitmap" .
    have "Suc row + k = row + Suc k"
      by simp
    then show "(Suc row + k) * unat w \<le> length bitmap"
      using Suc.prems(4) by (simp only:)
  qed
  have "(y + row) * 480 \<le> 319 * 480"
    using rows(1) by simp
  then have fits: "(y + row) * 480 + x + unat w \<le> length buffer"
    using Suc.prems(1,3) by simp
  have "row * unat w + unat w \<le> length bitmap"
    using src(1) by simp
  then obtain copied where
    copied: "memcpy buffer ((y + row) * 480 + x) bitmap (row * unat w) (unat w) = Some copied"
    using fits by (simp add: memcpy_def)
  have len: "length copied = 153600"
    using memcpy_result(1) [OF copied] Suc.prems(3) by simp
  obtain filled where
    run: "copyRows (int x) (int y) w bitmap copied (Suc row) k = Some filled"
    and flen: "length filled = 153600"
    and fill: "\<And>r c. r < 320 \<Longrightarrow> c < 480 \<Longrightarrow>
        filled ! (r * 480 + c) =
          (if y + Suc row \<le> r \<and> r < y + Suc row + k \<and> x \<le> c \<and> c < x + unat w
           then bitmap ! ((r - y) * unat w + (c - x)) else copied ! (r * 480 + c))"
    using Suc.IH [OF Suc.prems(1) rows(2) len src(2)] by blast
  have whole: "copyRows (int x) (int y) w bitmap buffer row (Suc k) = Some filled"
    using copyRows_step [OF Suc.prems(1) rows(1) Suc.prems(3) src(1)] copied run by simp
  have pixel: "filled ! (r * 480 + c) =
      (if y + row \<le> r \<and> r < y + row + Suc k \<and> x \<le> c \<and> c < x + unat w
       then bitmap ! ((r - y) * unat w + (c - x)) else buffer ! (r * 480 + c))"
    if r: "r < 320" and c: "c < 480" for r c
  proof -
    have "r * 480 \<le> 319 * 480"
      using r by simp
    then have p: "r * 480 + c < length buffer"
      using c Suc.prems(3) by simp
    have seg: "((y + row) * 480 + x \<le> r * 480 + c \<and>
        r * 480 + c < (y + row) * 480 + x + unat w) = (r = y + row \<and> x \<le> c \<and> c < x + unat w)"
      using c Suc.prems(1) by (rule row_segment)
    have first: "copied ! (r * 480 + c) =
        (if r = y + row \<and> x \<le> c \<and> c < x + unat w
         then bitmap ! (row * unat w + (c - x)) else buffer ! (r * 480 + c))"
      using memcpy_result(2) [OF copied p] seg by (auto simp: algebra_simps)
    show ?thesis
    proof (cases "r = y + row")
      case True
      then show ?thesis
        using fill [OF r c] first by simp
    next
      case False
      then have "(y + Suc row \<le> r \<and> r < y + Suc row + k) = (y + row \<le> r \<and> r < y + row + Suc k)"
        by auto
      then show ?thesis
        using fill [OF r c] first False by simp
    qed
  qed
  show ?case
    using whole flen pixel by blast
qed

text \<open>
  C9, as stated, fails for a tile whose corner is not on the display: at \<open>x = 480\<close> the
  callback returns failure, which stops the decoder, and draws nothing.
\<close>

theorem tile_outside_counterexample:
  "highSpeedTftOutput 480 0 16 16 (Some plainTile) directDisplay = Some (False, directDisplay)"
  by (simp add: highSpeedTftOutput_def config_defs)

lemma clip_extent:
  fixes len bound :: u16
  assumes "0 \<le> pos" and "pos < uint bound"
  shows "unat (if uint bound < pos + uint len then word_of_int (uint bound - pos) else len) =
     min (unat len) (unat bound - nat pos)"
proof (cases "uint bound < pos + uint len")
  case True
  define rest where "rest = unat bound - nat pos"
  have ub: "uint bound = int (unat bound)" and ul: "uint len = int (unat len)"
    by (rule uint_nat)+
  have "uint bound - pos = int rest"
    unfolding ub rest_def using assms unfolding ub by linarith
  then have cut: "(word_of_int (uint bound - pos) :: u16) = word_of_nat rest"
    by (simp only: word_of_int_nat of_nat_0_le_iff nat_int)
  have "unat bound < 2 ^ 16"
    using unsigned_less [of bound] by simp
  then have "rest < 2 ^ 16"
    by (simp add: rest_def)
  then have "unat (word_of_nat rest :: u16) = rest"
    by (simp add: unat_of_nat)
  moreover have "rest \<le> unat len"
    unfolding rest_def using True assms unfolding ub ul by linarith
  ultimately have "unat (word_of_int (uint bound - pos) :: u16) = min (unat len) rest"
    by (simp only: cut min_absorb2)
  then show ?thesis
    using True by (simp only: rest_def if_True)
next
  case False
  have ub: "uint bound = int (unat bound)" and ul: "uint len = int (unat len)"
    by (rule uint_nat)+
  have "unat len \<le> unat bound - nat pos"
    using False assms unfolding ub ul by linarith
  then show ?thesis
    using False by (simp only: if_False min_absorb1)
qed

text \<open>
  A tile with a bitmap whose corner lies on the display is cut to \<open>min w (480 - x)\<close>
  columns and \<open>min h (320 - y)\<close> rows, and drawn.
\<close>

lemma highSpeedTftOutput_on_display:
  assumes "0 \<le> x" and "x < 480" and "0 \<le> y" and "y < 320"
    and "unat w * unat h \<le> length pixels"
    and "case displayBuffer dm of None \<Rightarrow> True | Some buffer \<Rightarrow> length buffer = 153600"
  shows "\<exists>dm'. highSpeedTftOutput x y w h (Some pixels) dm = Some (True, dm') \<and>
     callCount dm' = (if (callCount dm + 1) mod 32 = 0 then 0 else callCount dm + 1) \<and>
     (case displayBuffer dm of
        None \<Rightarrow>
          displayBuffer dm' = None \<and>
          tft dm' =
            (if 0 < min (unat w) (480 - nat x) \<and> 0 < min (unat h) (320 - nat y)
             then tft dm @ [PushImage x y (word_of_nat (min (unat w) (480 - nat x)))
                              (word_of_nat (min (unat h) (320 - nat y))) pixels]
             else tft dm)
      | Some buffer \<Rightarrow>
          tft dm' = tft dm \<and>
          (\<exists>filled. displayBuffer dm' = Some filled \<and> length filled = length buffer \<and>
            (\<forall>r c. r < 320 \<and> c < 480 \<and>
                 \<not> (nat y \<le> r \<and> r < nat y + min (unat h) (320 - nat y) \<and>
                    nat x \<le> c \<and> c < nat x + min (unat w) (480 - nat x)) \<longrightarrow>
                 filled ! (r * 480 + c) = buffer ! (r * 480 + c)) \<and>
            (x + uint w \<le> 480 \<longrightarrow>
               (\<forall>r c. nat y \<le> r \<and> r < nat y + min (unat h) (320 - nat y) \<and>
                    nat x \<le> c \<and> c < nat x + unat w \<longrightarrow>
                    filled ! (r * 480 + c) = pixels ! ((r - nat y) * unat w + (c - nat x))))))"
proof -
  define cw where "cw = min (unat w) (480 - nat x)"
  define ch where "ch = min (unat h) (320 - nat y)"
  define w1 where "w1 = (if uint DISPLAY_WIDTH < x + uint w
      then word_of_int (uint DISPLAY_WIDTH - x) else w)"
  define h1 where "h1 = (if uint DISPLAY_HEIGHT < y + uint h
      then word_of_int (uint DISPLAY_HEIGHT - y) else h)"
  define tick where "tick = (\<lambda>drawn :: DisplayManager.
      if (callCount drawn + 1) mod 32 = 0 then drawn\<lparr>callCount := 0\<rparr>
      else drawn\<lparr>callCount := callCount drawn + 1\<rparr>)"
  have "x < uint DISPLAY_WIDTH" and "y < uint DISPLAY_HEIGHT"
    using assms(2,4) by (simp_all add: config_defs)
  then have "unat w1 = min (unat w) (unat DISPLAY_WIDTH - nat x)"
    and "unat h1 = min (unat h) (unat DISPLAY_HEIGHT - nat y)"
    unfolding w1_def h1_def using assms(1,3) by (simp_all only: clip_extent)
  then have w1: "unat w1 = cw" and h1: "unat h1 = ch"
    by (simp_all add: cw_def ch_def config_defs)
  have "word_of_nat (unat w1) = w1" and "word_of_nat (unat h1) = h1"
    by simp_all
  then have w1_word: "w1 = word_of_nat cw" and h1_word: "h1 = word_of_nat ch"
    by (simp_all only: w1 h1)
  have positive: "(0 < w1 \<and> 0 < h1) = (0 < cw \<and> 0 < ch)"
    using w1 h1 by (simp add: word_less_nat_alt)
  have inside: "\<not> (uint DISPLAY_HEIGHT \<le> y \<or> uint DISPLAY_WIDTH \<le> x)"
    using assms(2,4) by (simp add: config_defs)
  have run: "highSpeedTftOutput x y w h (Some pixels) dm =
      (if 0 < cw \<and> 0 < ch then
         (case displayBuffer dm of
            Some buffer \<Rightarrow>
              copyRows x y w1 pixels buffer 0 (unat h1) \<bind>
                (\<lambda>filled. Some (dm\<lparr>displayBuffer := Some filled\<rparr>))
          | None \<Rightarrow> Some (dm\<lparr>tft := tft dm @ [PushImage x y w1 h1 pixels]\<rparr>))
       else Some dm) \<bind> (\<lambda>drawn. Some (True, tick drawn))"
    using inside
    by (simp add: highSpeedTftOutput_def Let_def w1_def [symmetric] h1_def [symmetric]
        positive tick_def)
  have tick: "callCount (tick drawn) =
      (if (callCount drawn + 1) mod 32 = 0 then 0 else callCount drawn + 1)"
    "tft (tick drawn) = tft drawn" "displayBuffer (tick drawn) = displayBuffer drawn"
    for drawn
    by (simp_all add: tick_def)
  show ?thesis
  proof (cases "displayBuffer dm")
    case None
    then show ?thesis
      unfolding run cw_def [symmetric] ch_def [symmetric]
      by (simp add: tick w1_word h1_word)
  next
    case (Some buffer)
    then have len: "length buffer = 153600"
      using assms(6) by simp
    show ?thesis
    proof (cases "0 < cw \<and> 0 < ch")
      case False
      then have empty: "\<not> (nat y \<le> r \<and> r < nat y + ch \<and> nat x \<le> c \<and> c < nat x + cw)" for r c
        by auto
      have narrow: "x + uint w \<le> 480 \<Longrightarrow> unat w = cw"
        unfolding cw_def uint_nat [of w] using assms(1) by linarith
      show ?thesis
        unfolding run cw_def [symmetric] ch_def [symmetric]
        using False Some empty narrow by (auto simp: tick)
    next
      case True
      have wfit: "nat x + unat w1 \<le> 480"
        using assms(1,2) by (simp add: w1 cw_def)
      have hfit: "nat y + 0 + ch \<le> 320"
        using assms(3,4) by (simp add: ch_def)
      have "ch * cw \<le> unat h * unat w"
        by (intro mult_mono) (simp_all add: ch_def cw_def)
      then have src: "(0 + ch) * unat w1 \<le> length pixels"
        using assms(5) by (simp add: w1 mult.commute)
      obtain filled where
        copy: "copyRows (int (nat x)) (int (nat y)) w1 pixels buffer 0 ch = Some filled"
        and flen: "length filled = 153600"
        and fill: "\<And>r c. r < 320 \<Longrightarrow> c < 480 \<Longrightarrow>
          filled ! (r * 480 + c) =
            (if nat y + 0 \<le> r \<and> r < nat y + 0 + ch \<and> nat x \<le> c \<and> c < nat x + unat w1
             then pixels ! ((r - nat y) * unat w1 + (c - nat x)) else buffer ! (r * 480 + c))"
        using copyRows_result [OF wfit hfit len src] by blast
      have fill': "filled ! (r * 480 + c) =
            (if nat y \<le> r \<and> r < nat y + ch \<and> nat x \<le> c \<and> c < nat x + cw
             then pixels ! ((r - nat y) * cw + (c - nat x)) else buffer ! (r * 480 + c))"
        if "r < 320" and "c < 480" for r c
        using fill [OF that] by (simp add: w1)
      have copy': "copyRows x y w1 pixels buffer 0 ch = Some filled"
        using copy assms(1,3) by simp
      have result: "highSpeedTftOutput x y w h (Some pixels) dm =
          Some (True, tick (dm\<lparr>displayBuffer := Some filled\<rparr>))"
        unfolding run using True Some copy' by (simp add: h1)
      have outside: "filled ! (r * 480 + c) = buffer ! (r * 480 + c)"
        if "r < 320 \<and> c < 480 \<and>
            \<not> (nat y \<le> r \<and> r < nat y + ch \<and> nat x \<le> c \<and> c < nat x + cw)" for r c
        using that fill' [of r c] by auto
      have within: "filled ! (r * 480 + c) = pixels ! ((r - nat y) * unat w + (c - nat x))"
        if fits: "x + uint w \<le> 480"
          and at: "nat y \<le> r \<and> r < nat y + ch \<and> nat x \<le> c \<and> c < nat x + unat w" for r c
      proof -
        have same: "unat w = cw"
          using fits assms(1) unfolding cw_def uint_nat [of w] by linarith
        have "r < 320"
          using at hfit by simp
        moreover have "c < 480"
          using at wfit by (simp add: w1 same)
        ultimately have "filled ! (r * 480 + c) = pixels ! ((r - nat y) * cw + (c - nat x))"
          using fill' [of r c] at by (simp add: same)
        then show ?thesis
          by (simp only: same)
      qed
      show ?thesis
        unfolding cw_def [symmetric] ch_def [symmetric]
        using result Some flen len outside within by (auto simp: tick)
    qed
  qed
qed

text \<open>
  With a null bitmap, or a corner at or beyond the right or the bottom edge, the callback
  returns failure and leaves display, pixel buffer and call count as they are.
\<close>

lemma highSpeedTftOutput_off_display:
  assumes "bitmap = None \<or> 480 \<le> x \<or> 320 \<le> y"
  shows "highSpeedTftOutput x y w h bitmap dm = Some (False, dm)"
  using assms by (auto simp: highSpeedTftOutput_def config_defs split: option.splits)

text \<open>
  C9 (amended). For a tile with a null bitmap, or with \<open>x \<ge> 480\<close> or \<open>y \<ge> 320\<close>, the
  callback draws nothing and returns failure. For a tile with a bitmap of \<open>w * h\<close> pixels
  whose corner lies on the display (\<open>0 \<le> x < 480\<close>, \<open>0 \<le> y < 320\<close>) the callback
  returns success, having cut the rectangle to \<open>min w (480 - x)\<close> columns and
  \<open>min h (320 - y)\<close> rows. With no pixel buffer it forwards the tile to the display with
  the cut width and height (and forwards nothing when either is 0). With a pixel buffer of
  480 x 320 pixels it writes into the buffer, inside the cut rectangle only, and when the
  tile is not cut on the right (\<open>x + w \<le> 480\<close>) the pixel at column \<open>c\<close>, row \<open>r\<close> of
  the display is the pixel of the tile at column \<open>c - x\<close>, row \<open>r - y\<close>.
\<close>

theorem highSpeedTftOutput_clipping:
  "(bitmap = None \<or> 480 \<le> x \<or> 320 \<le> y \<longrightarrow>
      highSpeedTftOutput x y w h bitmap dm = Some (False, dm)) \<and>
   (0 \<le> x \<and> x < 480 \<and> 0 \<le> y \<and> y < 320 \<and> unat w * unat h \<le> length pixels \<and>
    (case displayBuffer dm of None \<Rightarrow> True | Some buffer \<Rightarrow> length buffer = 153600) \<longrightarrow>
    (\<exists>dm'. highSpeedTftOutput x y w h (Some pixels) dm = Some (True, dm') \<and>
     callCount dm' = (if (callCount dm + 1) mod 32 = 0 then 0 else callCount dm + 1) \<and>
     (case displayBuffer dm of
        None \<Rightarrow>
          displayBuffer dm' = None \<and>
          tft dm' =
            (if 0 < min (unat w) (480 - nat x) \<and> 0 < min (unat h) (320 - nat y)
             then tft dm @ [PushImage x y (word_of_nat (min (unat w) (480 - nat x)))
                              (word_of_nat (min (unat h) (320 - nat y))) pixels]
             else tft dm)
      | Some buffer \<Rightarrow>
          tft dm' = tft dm \<and>
          (\<exists>filled. displayBuffer dm' = Some filled \<and> length filled = length buffer \<and>
            (\<forall>r c. r < 320 \<and> c < 480 \<and>
                 \<not> (nat y \<le> r \<and> r < nat y + min (unat h) (320 - nat y) \<and>
                    nat x \<le> c \<and> c < nat x + min (unat w) (480 - nat x)) \<longrightarrow>
                 filled ! (r * 480 + c) = buffer ! (r * 480 + c)) \<and>
            (x + uint w \<le> 480 \<longrightarrow>
               (\<forall>r c. nat y \<le> r \<and> r < nat y + min (unat h) (320 - nat y) \<and>
                    nat x \<le> c \<and> c < nat x + unat w \<longrightarrow>
                    filled ! (r * 480 + c) =
                      pixels ! ((r - nat y) * unat w + (c - nat x))))))))"
proof (intro conjI impI)
  assume "bitmap = None \<or> 480 \<le> x \<or> 320 \<le> y"
  then show "highSpeedTftOutput x y w h bitmap dm = Some (False, dm)"
    by (rule highSpeedTftOutput_off_display)
next
  assume on_display: "0 \<le> x \<and> x < 480 \<and> 0 \<le> y \<and> y < 320 \<and>
    unat w * unat h \<le> length pixels \<and>
    (case displayBuffer dm of None \<Rightarrow> True | Some buffer \<Rightarrow> length buffer = 153600)"
  then have "0 \<le> x" and "x < 480" and "0 \<le> y" and "y < 320"
    and "unat w * unat h \<le> length pixels"
    and "case displayBuffer dm of None \<Rightarrow> True | Some buffer \<Rightarrow> length buffer = 153600"
    by blast+
  then show "\<exists>dm'. highSpeedTftOutput x y w h (Some pixels) dm = Some (True, dm') \<and>
     callCount dm' = (if (callCount dm + 1) mod 32 = 0 then 0 else callCount dm + 1) \<and>
     (case displayBuffer dm of
        None \<Rightarrow>
          displayBuffer dm' = None \<and>
          tft dm' =
            (if 0 < min (unat w) (480 - nat x) \<and> 0 < min (unat h) (320 - nat y)
             then tft dm @ [PushImage x y (word_of_nat (min (unat w) (480 - nat x)))
                              (word_of_nat (min (unat h) (320 - nat y))) pixels]
             else tft dm)
      | Some buffer \<Rightarrow>
          tft dm' = tft dm \<and>
          (\<exists>filled. displayBuffer dm' = Some filled \<and> length filled = length buffer \<and>
            (\<forall>r c. r < 320 \<and> c < 480 \<and>
                 \<not> (nat y \<le> r \<and> r < nat y + min (unat h) (320 - nat y) \<and>
                    nat x \<le> c \<and> c < nat x + min (unat w) (480 - nat x)) \<longrightarrow>
                 filled ! (r * 480 + c) = buffer ! (r * 480 + c)) \<and>
            (x + uint w \<le> 480 \<longrightarrow>
               (\<forall>r c. nat y \<le> r \<and> r < nat y + min (unat h) (320 - nat y) \<and>
                    nat x \<le> c \<and> c < nat x + unat w \<longrightarrow>
                    filled ! (r * 480 + c) =
                      pixels ! ((r - nat y) * unat w + (c - nat x))))))"
    by (rule highSpeedTftOutput_on_display)
qed

theorem highSpeedTftOutput_clipping_witness:
  "map_option (\<lambda>(ok, dm'). (ok, tft dm', callCount dm'))
     (highSpeedTftOutput 464 312 16 16 (Some plainTile) directDisplay) =
   Some (True, [PushImage 464 312 16 8 plainTile], 1) \<and>
   map_option
     (\<lambda>(ok, dm'). (ok, map_option (\<lambda>b. (length b, b ! 472, b ! 959, b ! 0)) (displayBuffer dm')))
     (highSpeedTftOutput 472 0 8 2 (Some tile8x2) bufferedDisplay) =
   Some (True, Some (153600, 1001, 2008, 0)) \<and>
   highSpeedTftOutput 0 320 8 2 (Some tile8x2) bufferedDisplay = Some (False, bufferedDisplay) \<and>
   highSpeedTftOutput 0 0 8 2 None directDisplay = Some (False, directDisplay)"
proof -
  have below: "highSpeedTftOutput 0 320 8 2 (Some tile8x2) bufferedDisplay =
      Some (False, bufferedDisplay)"
    using highSpeedTftOutput_clipping [where bitmap = "Some tile8x2" and x = 0 and y = 320
        and w = 8 and h = 2 and dm = bufferedDisplay and pixels = tile8x2]
    by simp
  have null: "highSpeedTftOutput 0 0 8 2 None directDisplay = Some (False, directDisplay)"
    using highSpeedTftOutput_clipping [where bitmap = None and x = 0 and y = 0
        and w = 8 and h = 2 and dm = directDisplay and pixels = tile8x2]
    by simp
  have direct: "map_option (\<lambda>(ok, dm'). (ok, tft dm', callCount dm'))
     (highSpeedTftOutput 464 312 16 16 (Some plainTile) directDisplay) =
     Some (True, [PushImage 464 312 16 8 plainTile], 1)"
  proof -
    have "unat (16 :: u16) * unat (16 :: u16) \<le> length plainTile"
      by (simp add: plainTile_def)
    moreover have "case displayBuffer directDisplay of None \<Rightarrow> True
        | Some buffer \<Rightarrow> length buffer = 153600"
      by (simp add: directDisplay_def)
    ultimately obtain dm' where
      "highSpeedTftOutput 464 312 16 16 (Some plainTile) directDisplay = Some (True, dm')"
      "callCount dm' = 1" "tft dm' = [PushImage 464 312 16 8 plainTile]"
      using highSpeedTftOutput_clipping [where bitmap = None and x = 464 and y = 312
          and w = 16 and h = 16 and dm = directDisplay and pixels = plainTile]
      by (auto simp: directDisplay_def)
    then show ?thesis
      by simp
  qed
  have buffered: "map_option
     (\<lambda>(ok, dm'). (ok, map_option (\<lambda>b. (length b, b ! 472, b ! 959, b ! 0)) (displayBuffer dm')))
     (highSpeedTftOutput 472 0 8 2 (Some tile8x2) bufferedDisplay) =
     Some (True, Some (153600, 1001, 2008, 0))"
  proof -
    have tile: "unat (8 :: u16) * unat (2 :: u16) \<le> length tile8x2"
      by (simp add: tile8x2_def)
    have buffer: "displayBuffer bufferedDisplay = Some (replicate 153600 0)"
      by (simp add: bufferedDisplay_def)
    have sized: "case displayBuffer bufferedDisplay of None \<Rightarrow> True
        | Some buffer \<Rightarrow> length buffer = 153600"
      by (simp add: buffer)
    have x: "(0 :: int) \<le> 472" "(472 :: int) < 480" and y: "(0 :: int) \<le> 0" "(0 :: int) < 320"
      by simp_all
    have on_display: "(0 :: int) \<le> 472 \<and> (472 :: int) < 480 \<and> (0 :: int) \<le> 0 \<and>
        (0 :: int) < 320 \<and> unat (8 :: u16) * unat (2 :: u16) \<le> length tile8x2 \<and>
        (case displayBuffer bufferedDisplay of None \<Rightarrow> True
         | Some buffer \<Rightarrow> length buffer = 153600)"
      using x y tile sized by blast
    note inside = highSpeedTftOutput_clipping [where bitmap = None and x = 472 and y = 0
        and w = 8 and h = 2 and dm = bufferedDisplay and pixels = tile8x2,
        THEN conjunct2, THEN mp, OF on_display, unfolded buffer option.case]
    from inside obtain dm' filled where
      run: "highSpeedTftOutput 472 0 8 2 (Some tile8x2) bufferedDisplay = Some (True, dm')"
      and filled: "displayBuffer dm' = Some filled"
        "length filled = length (replicate 153600 (0 :: u16))"
      and outside: "\<forall>r c. r < 320 \<and> c < 480 \<and>
            \<not> (nat 0 \<le> r \<and> r < nat 0 + min (unat (2 :: u16)) (320 - nat 0) \<and>
               nat 472 \<le> c \<and> c < nat 472 + min (unat (8 :: u16)) (480 - nat 472)) \<longrightarrow>
            filled ! (r * 480 + c) = replicate 153600 0 ! (r * 480 + c)"
      and within: "472 + uint (8 :: u16) \<le> 480 \<longrightarrow>
            (\<forall>r c. nat 0 \<le> r \<and> r < nat 0 + min (unat (2 :: u16)) (320 - nat 0) \<and>
                nat 472 \<le> c \<and> c < nat 472 + unat (8 :: u16) \<longrightarrow>
                filled ! (r * 480 + c) = tile8x2 ! ((r - nat 0) * unat (8 :: u16) + (c - nat 472)))"
      by blast
    have inner: "filled ! (r * 480 + c) = tile8x2 ! (r * 8 + (c - 472))"
      if "r < 2" and "472 \<le> c" and "c < 480" for r c
      using within that by auto
    have outer: "filled ! (r * 480 + c) = 0"
      if "r < 320" and "c < 472" for r c
      using outside that by auto
    have first: "filled ! 472 = 1001"
      using inner [of 0 472] by (simp add: tile8x2_def)
    have last: "filled ! 959 = 2008"
      using inner [of 1 479] by (simp add: tile8x2_def)
    have origin: "filled ! 0 = 0"
      using outer [of 0 0] by simp
    show ?thesis
      using run filled first last origin by simp
  qed
  show ?thesis
    using direct buffered below null by blast
qed

text \<open>
  A tile of 16 x 2 pixels at \<open>x = 472\<close> is cut to 8 columns. The second row written to the
  buffer starts at pixel 8 of the tile, which is the ninth pixel of the tile's first row
  (the second row of the tile starts at pixel 16): the source offset of a row is
  \<open>row * w\<close> with \<open>w\<close> the width after clipping.
\<close>

lemma clipped_tile_source_rows:
  "map_option
     (\<lambda>(ok, dm'). (ok, map_option (\<lambda>b. (b ! 472, b ! 479, b ! 952, b ! 959)) (displayBuffer dm')))
     (highSpeedTftOutput 472 0 16 2 (Some tile16x2) bufferedDisplay) =
   Some (True, Some (1000, 1007, 1008, 1015)) \<and>
   tile16x2 ! 8 = 1008 \<and> tile16x2 ! 16 = 2000"
proof -
  have run: "highSpeedTftOutput 472 0 16 2 (Some tile16x2) bufferedDisplay =
      copyRows 472 0 8 tile16x2 (replicate 153600 0) 0 2 \<bind>
        (\<lambda>filled. Some (True, bufferedDisplay\<lparr>displayBuffer := Some filled, callCount := 1\<rparr>))"
    by (simp add: highSpeedTftOutput_def config_defs bufferedDisplay_def Let_def word_cmp)
  have "\<exists>filled. copyRows (int 472) (int 0) 8 tile16x2 (replicate 153600 0) 0 2 = Some filled \<and>
     length filled = 153600 \<and>
     (\<forall>r c. r < 320 \<longrightarrow> c < 480 \<longrightarrow>
        filled ! (r * 480 + c) =
          (if 0 + 0 \<le> r \<and> r < 0 + 0 + 2 \<and> 472 \<le> c \<and> c < 472 + unat (8 :: u16)
           then tile16x2 ! ((r - 0) * unat (8 :: u16) + (c - 472))
           else replicate 153600 0 ! (r * 480 + c)))"
    by (rule copyRows_result) (simp_all add: tile16x2_def)
  then obtain filled where
    copy: "copyRows 472 0 8 tile16x2 (replicate 153600 0) 0 2 = Some filled"
    and fill: "\<And>r c. r < 2 \<Longrightarrow> 472 \<le> c \<Longrightarrow> c < 480 \<Longrightarrow>
        filled ! (r * 480 + c) = tile16x2 ! (r * 8 + (c - 472))"
    by auto
  have "filled ! 472 = 1000" "filled ! 479 = 1007" "filled ! 952 = 1008" "filled ! 959 = 1015"
    using fill [of 0 472] fill [of 0 479] fill [of 1 472] fill [of 1 479]
    by (simp_all add: tile16x2_def)
  then show ?thesis
    unfolding run copy by (simp add: tile16x2_def)
qed

end
